theory Spec2Isabelle
  imports Main "HOL-Library.Signed_Division"
begin

section \<open>Spatial primitives (Position.h, Direction.h)\<close>

text \<open>
  The C++ \<^verbatim>\<open>int\<close> fields are modelled as \<^typ>\<open>int\<close>. The engine only ever adds
  \<open>-1\<close>, \<open>0\<close> or \<open>1\<close> to a coordinate and reduces it modulo a board dimension, and the
  counters (ammo, cooldown, health, progress) move by one between small bounds, so no
  32-bit overflow is involved in what follows. The operator \<^verbatim>\<open>%\<close> on C++ ints truncates
  towards zero; it is written \<open>smod\<close> here.
\<close>

datatype Position = Position (px: int) (py: int)

definition pos_add :: "Position \<Rightarrow> Position \<Rightarrow> Position" where
  "pos_add a b = Position (px a + px b) (py a + py b)"

datatype Direction = UP | UP_RIGHT | RIGHT | DOWN_RIGHT | DOWN | DOWN_LEFT | LEFT | UP_LEFT

fun dir_index :: "Direction \<Rightarrow> int" where
  "dir_index UP = 0"
| "dir_index UP_RIGHT = 1"
| "dir_index RIGHT = 2"
| "dir_index DOWN_RIGHT = 3"
| "dir_index DOWN = 4"
| "dir_index DOWN_LEFT = 5"
| "dir_index LEFT = 6"
| "dir_index UP_LEFT = 7"

definition dir_of_index :: "int \<Rightarrow> Direction" where
  "dir_of_index i =
     (if i = 0 then UP else if i = 1 then UP_RIGHT else if i = 2 then RIGHT
      else if i = 3 then DOWN_RIGHT else if i = 4 then DOWN else if i = 5 then DOWN_LEFT
      else if i = 6 then LEFT else UP_LEFT)"

fun getMovementOffset :: "Direction \<Rightarrow> int \<Rightarrow> Position" where
  "getMovementOffset UP m = Position 0 (- m)"
| "getMovementOffset UP_RIGHT m = Position m (- m)"
| "getMovementOffset RIGHT m = Position m 0"
| "getMovementOffset DOWN_RIGHT m = Position m m"
| "getMovementOffset DOWN m = Position 0 m"
| "getMovementOffset DOWN_LEFT m = Position (- m) m"
| "getMovementOffset LEFT m = Position (- m) 0"
| "getMovementOffset UP_LEFT m = Position (- m) (- m)"

text \<open>\<^verbatim>\<open>DirectionUtils::rotate\<close>: \<^verbatim>\<open>((dir_index + steps) % 8 + 8) % 8\<close>.\<close>

definition rotate :: "Direction \<Rightarrow> int \<Rightarrow> Direction" where
  "rotate dir steps = dir_of_index (((dir_index dir + steps) smod 8 + 8) smod 8)"

section \<open>Action vocabulary and outcomes (ActionRequest.h, ActionOutcome.h)\<close>

datatype ActionRequest =
  MoveForward | MoveBackward | RotateRight45 | RotateLeft45 | RotateRight90 | RotateLeft90
  | Shoot | DoNothing | GetBattleInfo

datatype ActionOutcome =
  NONE | SHOT_INITIATED | MOVE_PENDING | ROTATED | STATE_CHANGED | INVALID_ACTION
  | RETURNING_BATTLE_INFO

section \<open>World objects (GameObject.h, Tank.h, Shell.h, Wall.h, Mine.h)\<close>

text \<open>
  The class hierarchy is a record hierarchy. The \<^verbatim>\<open>type\<close> field of \<^verbatim>\<open>GameObject\<close> always
  agrees with the dynamic class of the object (each constructor sets it), so it is
  represented by the constructor of \<open>Obj\<close> below.
\<close>

record GameObject =
  position :: Position
  symbol :: char
  is_destroyed :: bool

datatype TankMovementState = INITIAL | BWD_1 | BWD_2 | MOVING_BWD

record Tank = GameObject +
  movementState :: TankMovementState
  player_id :: int
  tank_id :: int
  movement_progress :: int
  cannonDirection :: Direction
  shells_remaining :: int
  cooldown_remaining :: int
  multiplier :: int
  move_intent_this_step :: bool

record Shell = GameObject +
  movement_progress :: int
  direction :: Direction

record Wall = GameObject +
  health :: int

record Mine = GameObject +
  mine_unit :: unit

text \<open>The constructors. \<^verbatim>\<open>Shell::Shell\<close>: symbol \<^verbatim>\<open>'*'\<close>, progress 0.\<close>

definition new_Shell :: "Position \<Rightarrow> Direction \<Rightarrow> Shell" where
  "new_Shell pos dir =
     \<lparr> position = pos, symbol = CHR ''*'', is_destroyed = False,
       Shell.movement_progress = 0, direction = dir \<rparr>"

text \<open>\<^verbatim>\<open>Wall::Wall\<close>: symbol \<^verbatim>\<open>'#'\<close>, health 2.\<close>

definition new_Wall :: "Position \<Rightarrow> Wall" where
  "new_Wall pos = \<lparr> position = pos, symbol = CHR ''#'', is_destroyed = False, health = 2 \<rparr>"

definition new_Mine :: "Position \<Rightarrow> Mine" where
  "new_Mine pos = \<lparr> position = pos, symbol = CHR ''@'', is_destroyed = False, mine_unit = () \<rparr>"

text \<open>
  \<^verbatim>\<open>Tank::Tank(pos, id, initialDirection)\<close>. The constructor reads two static members,
  the id counter \<^verbatim>\<open>next_tank_id\<close> (post-incremented by the caller of this function) and
  \<^verbatim>\<open>initial_shells\<close>; both are parameters here. It does not initialise \<^verbatim>\<open>multiplier\<close>:
  the indeterminate value is the parameter \<open>m0\<close>.
\<close>

definition new_Tank :: "int \<Rightarrow> int \<Rightarrow> int \<Rightarrow> Position \<Rightarrow> int \<Rightarrow> Direction \<Rightarrow> Tank" where
  "new_Tank next_tank_id initial_shells m0 pos ident initialDirection =
     \<lparr> position = pos, symbol = (if ident = 1 then CHR ''1'' else CHR ''2''),
       is_destroyed = False,
       movementState = INITIAL, player_id = ident, tank_id = next_tank_id,
       Tank.movement_progress = 0, cannonDirection = initialDirection,
       shells_remaining = initial_shells, cooldown_remaining = 0, multiplier = m0,
       move_intent_this_step = False \<rparr>"

text \<open>\<^verbatim>\<open>GameObject::render\<close>.\<close>

definition render :: "'a GameObject_scheme \<Rightarrow> char" where
  "render obj = (if is_destroyed obj then CHR '' '' else symbol obj)"

section \<open>The unit movement-intent state machine (Tank.h)\<close>

definition Tank_rotate :: "Tank \<Rightarrow> int \<Rightarrow> Tank" where
  "Tank_rotate t steps = t\<lparr>cannonDirection := rotate (cannonDirection t) steps\<rparr>"

text \<open>The shoot check shared by the states \<^verbatim>\<open>INITIAL\<close> and \<^verbatim>\<open>MOVING_BWD\<close>.\<close>

definition shoot_outcome :: "Tank \<Rightarrow> ActionOutcome" where
  "shoot_outcome t =
     (if shells_remaining t > 0 \<and> cooldown_remaining t = 0 then SHOT_INITIATED
      else INVALID_ACTION)"

text \<open>
  \<^verbatim>\<open>Tank::transitionMovementState\<close>. The function first clears the move intent, then
  answers an info request in any state, then switches on the movement state and the
  action; the \<^verbatim>\<open>default\<close> branches (reached by \<^verbatim>\<open>DoNothing\<close>) return \<^verbatim>\<open>NONE\<close>.
\<close>

fun transition_INITIAL :: "Tank \<Rightarrow> ActionRequest \<Rightarrow> ActionOutcome \<times> Tank" where
  "transition_INITIAL t MoveForward =
     (MOVE_PENDING, t\<lparr>multiplier := 1, move_intent_this_step := True\<rparr>)"
| "transition_INITIAL t MoveBackward = (STATE_CHANGED, t\<lparr>movementState := BWD_1\<rparr>)"
| "transition_INITIAL t RotateLeft45 = (ROTATED, Tank_rotate t (- 1))"
| "transition_INITIAL t RotateLeft90 = (ROTATED, Tank_rotate t (- 2))"
| "transition_INITIAL t RotateRight45 = (ROTATED, Tank_rotate t 1)"
| "transition_INITIAL t RotateRight90 = (ROTATED, Tank_rotate t 2)"
| "transition_INITIAL t Shoot = (shoot_outcome t, t)"
| "transition_INITIAL t _ = (NONE, t)"

fun transition_BWD_1 :: "Tank \<Rightarrow> ActionRequest \<Rightarrow> ActionOutcome \<times> Tank" where
  "transition_BWD_1 t MoveForward = (STATE_CHANGED, t\<lparr>movementState := INITIAL\<rparr>)"
| "transition_BWD_1 t RotateLeft45 = (STATE_CHANGED, t\<lparr>movementState := BWD_2\<rparr>)"
| "transition_BWD_1 t RotateLeft90 = (STATE_CHANGED, t\<lparr>movementState := BWD_2\<rparr>)"
| "transition_BWD_1 t RotateRight45 = (STATE_CHANGED, t\<lparr>movementState := BWD_2\<rparr>)"
| "transition_BWD_1 t RotateRight90 = (STATE_CHANGED, t\<lparr>movementState := BWD_2\<rparr>)"
| "transition_BWD_1 t Shoot = (STATE_CHANGED, t\<lparr>movementState := BWD_2\<rparr>)"
| "transition_BWD_1 t MoveBackward = (STATE_CHANGED, t\<lparr>movementState := BWD_2\<rparr>)"
| "transition_BWD_1 t _ = (NONE, t)"

definition confirm_backward :: "Tank \<Rightarrow> ActionOutcome \<times> Tank" where
  "confirm_backward t =
     (MOVE_PENDING,
      t\<lparr>movementState := MOVING_BWD, multiplier := - 1, move_intent_this_step := True\<rparr>)"

fun transition_BWD_2 :: "Tank \<Rightarrow> ActionRequest \<Rightarrow> ActionOutcome \<times> Tank" where
  "transition_BWD_2 t MoveForward = (STATE_CHANGED, t\<lparr>movementState := INITIAL\<rparr>)"
| "transition_BWD_2 t RotateLeft45 = confirm_backward t"
| "transition_BWD_2 t RotateLeft90 = confirm_backward t"
| "transition_BWD_2 t RotateRight45 = confirm_backward t"
| "transition_BWD_2 t RotateRight90 = confirm_backward t"
| "transition_BWD_2 t Shoot = confirm_backward t"
| "transition_BWD_2 t MoveBackward = confirm_backward t"
| "transition_BWD_2 t _ = (NONE, t)"

fun transition_MOVING_BWD :: "Tank \<Rightarrow> ActionRequest \<Rightarrow> ActionOutcome \<times> Tank" where
  "transition_MOVING_BWD t MoveForward =
     (MOVE_PENDING,
      t\<lparr>movementState := INITIAL, multiplier := 1, move_intent_this_step := True\<rparr>)"
| "transition_MOVING_BWD t RotateLeft45 =
     (ROTATED, Tank_rotate (t\<lparr>movementState := INITIAL\<rparr>) (- 1))"
| "transition_MOVING_BWD t RotateLeft90 =
     (ROTATED, Tank_rotate (t\<lparr>movementState := INITIAL\<rparr>) (- 2))"
| "transition_MOVING_BWD t RotateRight45 =
     (ROTATED, Tank_rotate (t\<lparr>movementState := INITIAL\<rparr>) 1)"
| "transition_MOVING_BWD t RotateRight90 =
     (ROTATED, Tank_rotate (t\<lparr>movementState := INITIAL\<rparr>) 2)"
| "transition_MOVING_BWD t Shoot =
     (shoot_outcome (t\<lparr>movementState := INITIAL\<rparr>), t\<lparr>movementState := INITIAL\<rparr>)"
| "transition_MOVING_BWD t MoveBackward =
     (MOVE_PENDING, t\<lparr>multiplier := - 1, move_intent_this_step := True\<rparr>)"
| "transition_MOVING_BWD t _ = (NONE, t)"

definition transitionMovementState :: "Tank \<Rightarrow> ActionRequest \<Rightarrow> ActionOutcome \<times> Tank" where
  "transitionMovementState t action =
     (let t0 = t\<lparr>move_intent_this_step := False\<rparr> in
      if action = GetBattleInfo then (RETURNING_BATTLE_INFO, t0)
      else case movementState t0 of
             INITIAL \<Rightarrow> transition_INITIAL t0 action
           | BWD_1 \<Rightarrow> transition_BWD_1 t0 action
           | BWD_2 \<Rightarrow> transition_BWD_2 t0 action
           | MOVING_BWD \<Rightarrow> transition_MOVING_BWD t0 action)"

text \<open>
  \<^verbatim>\<open>Tank::updateMovementProgress\<close>, with \<^verbatim>\<open>Tank::speed = 1\<close>. It returns the intended
  position and the tank with its progress updated.
\<close>

definition Tank_speed :: int where
  "Tank_speed = 1"

definition updateMovementProgress :: "Tank \<Rightarrow> int \<Rightarrow> int \<Rightarrow> int \<Rightarrow> Position \<times> Tank" where
  "updateMovementProgress t max_speed board_width board_height =
     (if \<not> move_intent_this_step t then (position t, t\<lparr>Tank.movement_progress := 0\<rparr>)
      else
        let t1 = t\<lparr>Tank.movement_progress := Tank.movement_progress t + Tank_speed\<rparr> in
        if Tank.movement_progress t1 \<ge> max_speed then
          let offset = getMovementOffset (cannonDirection t1) (multiplier t1);
              intendedPositionX = (px (position t1) + px offset + board_width) smod board_width;
              intendedPositionY = (py (position t1) + py offset + board_height) smod board_height
          in (Position intendedPositionX intendedPositionY,
              t1\<lparr>Tank.movement_progress := Tank.movement_progress t1 - max_speed\<rparr>)
        else (position t1, t1))"

text \<open>\<^verbatim>\<open>Tank::shoot\<close>: the new shell, if any, and the tank afterwards.\<close>

definition shoot :: "Tank \<Rightarrow> Shell option \<times> Tank" where
  "shoot t =
     (if shells_remaining t > 0 \<and> cooldown_remaining t = 0 then
        let t1 = t\<lparr>shells_remaining := shells_remaining t - 1, cooldown_remaining := 4\<rparr>
        in (Some (new_Shell (position t1) (cannonDirection t1)), t1)
      else (None, t))"

definition decrementCooldown :: "Tank \<Rightarrow> Tank" where
  "decrementCooldown t =
     (if cooldown_remaining t > 0 then t\<lparr>cooldown_remaining := cooldown_remaining t - 1\<rparr>
      else t)"

text \<open>
  A shoot request as the orchestrator carries it out for one unit
  (\<^verbatim>\<open>processTankTransitions\<close>, then the \<^verbatim>\<open>SHOT_INITIATED\<close> branch of
  \<^verbatim>\<open>executeImmediateActions\<close>): the transition decides the outcome, and \<^verbatim>\<open>shoot\<close> is
  called only on \<^verbatim>\<open>SHOT_INITIATED\<close>.
\<close>

definition request_action :: "Tank \<Rightarrow> ActionRequest \<Rightarrow> ActionOutcome \<times> Shell option \<times> Tank" where
  "request_action t action =
     (let (outcome, t1) = transitionMovementState t action in
      if outcome = SHOT_INITIATED then
        let (newShell, t2) = shoot t1 in (outcome, newShell, t2)
      else (outcome, None, t1))"

text \<open>The six requests that the \<^verbatim>\<open>BWD_1\<close> and \<^verbatim>\<open>BWD_2\<close> cases list after \<^verbatim>\<open>MoveForward\<close>.\<close>

fun confirms_backward :: "ActionRequest \<Rightarrow> bool" where
  "confirms_backward MoveBackward = True"
| "confirms_backward RotateLeft45 = True"
| "confirms_backward RotateLeft90 = True"
| "confirms_backward RotateRight45 = True"
| "confirms_backward RotateRight90 = True"
| "confirms_backward Shoot = True"
| "confirms_backward _ = False"

text \<open>A unit waiting in \<^verbatim>\<open>BWD_1\<close> with no ammunition, and one waiting in \<^verbatim>\<open>BWD_2\<close>.\<close>

definition pending1_tank :: Tank where
  "pending1_tank = (new_Tank 0 0 1 (Position 2 2) 1 LEFT)\<lparr>movementState := BWD_1\<rparr>"

definition pending2_tank :: Tank where
  "pending2_tank = (new_Tank 0 5 1 (Position 2 2) 1 LEFT)\<lparr>movementState := BWD_2\<rparr>"

subsection \<open>Facts about the state machine\<close>

lemma transition_keeps_ammo:
  "shells_remaining (snd (transitionMovementState t a)) = shells_remaining t
   \<and> cooldown_remaining (snd (transitionMovementState t a)) = cooldown_remaining t
   \<and> position (snd (transitionMovementState t a)) = position t
   \<and> is_destroyed (snd (transitionMovementState t a)) = is_destroyed t"
  by (cases a; cases "movementState t";
      simp add: transitionMovementState_def Tank_rotate_def confirm_backward_def Let_def)

lemma transition_shot_iff:
  "fst (transitionMovementState t a) = SHOT_INITIATED \<longleftrightarrow>
     a = Shoot \<and> (movementState t = INITIAL \<or> movementState t = MOVING_BWD)
     \<and> shells_remaining t > 0 \<and> cooldown_remaining t = 0"
  by (cases a; cases "movementState t";
      simp add: transitionMovementState_def shoot_outcome_def confirm_backward_def Let_def)

text \<open>
  Claim C3, as stated, fails: a unit in \<^verbatim>\<open>BWD_1\<close> with no ammunition that requests a
  shot is not rejected as invalid; the request counts as the second step of the
  reversal and the outcome is \<^verbatim>\<open>STATE_CHANGED\<close>.
\<close>

theorem shoot_rejection_counterexample:
  "shells_remaining pending1_tank = 0
   \<and> fst (request_action pending1_tank Shoot) = STATE_CHANGED
   \<and> fst (request_action pending1_tank Shoot) \<noteq> INVALID_ACTION"
  by (simp add: pending1_tank_def new_Tank_def request_action_def
      transitionMovementState_def)

text \<open>
  Claim C3, amended. For every unit: a shoot request that succeeds (outcome
  \<^verbatim>\<open>SHOT_INITIATED\<close>) spawns a projectile, takes exactly 1 from the unit's ammo and sets
  its cooldown to exactly 4. Whenever ammo is 0 or cooldown is above 0, no projectile is
  spawned and ammo and cooldown are unchanged; the request is rejected as invalid
  (\<^verbatim>\<open>INVALID_ACTION\<close>) when the unit is in \<^verbatim>\<open>INITIAL\<close> or \<^verbatim>\<open>MOVING_BWD\<close>, while in
  \<^verbatim>\<open>BWD_1\<close> it yields \<^verbatim>\<open>STATE_CHANGED\<close> and in \<^verbatim>\<open>BWD_2\<close> \<^verbatim>\<open>MOVE_PENDING\<close>.
\<close>

theorem shoot_request_ammo_cooldown:
  fixes t :: Tank
  defines "r \<equiv> request_action t Shoot"
  shows "(fst r = SHOT_INITIATED \<longrightarrow>
            (\<exists>sh. fst (snd r) = Some sh)
            \<and> shells_remaining (snd (snd r)) = shells_remaining t - 1
            \<and> cooldown_remaining (snd (snd r)) = 4)
         \<and> (shells_remaining t = 0 \<or> cooldown_remaining t > 0 \<longrightarrow>
            fst (snd r) = None
            \<and> shells_remaining (snd (snd r)) = shells_remaining t
            \<and> cooldown_remaining (snd (snd r)) = cooldown_remaining t
            \<and> fst r = (case movementState t of
                         INITIAL \<Rightarrow> INVALID_ACTION
                       | MOVING_BWD \<Rightarrow> INVALID_ACTION
                       | BWD_1 \<Rightarrow> STATE_CHANGED
                       | BWD_2 \<Rightarrow> MOVE_PENDING))"
proof -
  obtain outcome t1 where tr: "transitionMovementState t Shoot = (outcome, t1)"
    by (cases "transitionMovementState t Shoot")
  from tr have keep: "shells_remaining t1 = shells_remaining t"
      "cooldown_remaining t1 = cooldown_remaining t"
    using transition_keeps_ammo [of t Shoot] by simp_all
  from tr have shot: "outcome = SHOT_INITIATED \<longleftrightarrow>
      (movementState t = INITIAL \<or> movementState t = MOVING_BWD)
      \<and> shells_remaining t > 0 \<and> cooldown_remaining t = 0"
    using transition_shot_iff [of t Shoot] by simp
  have success: "outcome = SHOT_INITIATED \<Longrightarrow>
      (\<exists>sh. fst (snd r) = Some sh)
      \<and> shells_remaining (snd (snd r)) = shells_remaining t - 1
      \<and> cooldown_remaining (snd (snd r)) = 4"
    using tr keep shot by (simp add: r_def request_action_def shoot_def Let_def)
  have refused: "shells_remaining t = 0 \<or> cooldown_remaining t > 0 \<Longrightarrow>
      fst (snd r) = None
      \<and> shells_remaining (snd (snd r)) = shells_remaining t
      \<and> cooldown_remaining (snd (snd r)) = cooldown_remaining t"
    using tr keep shot by (auto simp add: r_def request_action_def)
  have tag: "shells_remaining t = 0 \<or> cooldown_remaining t > 0 \<Longrightarrow>
      outcome = (case movementState t of
                   INITIAL \<Rightarrow> INVALID_ACTION
                 | MOVING_BWD \<Rightarrow> INVALID_ACTION
                 | BWD_1 \<Rightarrow> STATE_CHANGED
                 | BWD_2 \<Rightarrow> MOVE_PENDING)"
    using tr
    by (cases "movementState t";
        auto simp add: transitionMovementState_def shoot_outcome_def confirm_backward_def
          Let_def)
  have "fst r = outcome"
    using tr by (simp add: r_def request_action_def split: prod.splits)
  with success refused tag show ?thesis by simp
qed

theorem shoot_request_ammo_cooldown_witness:
  "fst (request_action (new_Tank 0 3 1 (Position 0 0) 1 LEFT) Shoot) = SHOT_INITIATED
   \<and> shells_remaining (snd (snd (request_action (new_Tank 0 3 1 (Position 0 0) 1 LEFT) Shoot))) = 2
   \<and> cooldown_remaining (snd (snd (request_action (new_Tank 0 3 1 (Position 0 0) 1 LEFT) Shoot))) = 4
   \<and> shells_remaining (new_Tank 0 0 1 (Position 0 0) 1 LEFT) = 0
   \<and> fst (request_action (new_Tank 0 0 1 (Position 0 0) 1 LEFT) Shoot) = INVALID_ACTION
   \<and> fst (snd (request_action (new_Tank 0 0 1 (Position 0 0) 1 LEFT) Shoot)) = None"
proof -
  have a: "fst (request_action (new_Tank 0 3 1 (Position 0 0) 1 LEFT) Shoot) = SHOT_INITIATED"
    by (simp add: new_Tank_def request_action_def transitionMovementState_def
        shoot_outcome_def shoot_def)
  have b: "shells_remaining (new_Tank 0 0 1 (Position 0 0) 1 LEFT) = 0"
    by (simp add: new_Tank_def)
  have c: "shells_remaining (new_Tank 0 3 1 (Position 0 0) 1 LEFT) = 3"
      "movementState (new_Tank 0 0 1 (Position 0 0) 1 LEFT) = INITIAL"
    by (simp_all add: new_Tank_def)
  show ?thesis
    using a b c shoot_request_ammo_cooldown [of "new_Tank 0 3 1 (Position 0 0) 1 LEFT"]
      shoot_request_ammo_cooldown [of "new_Tank 0 0 1 (Position 0 0) 1 LEFT"]
    by simp
qed

text \<open>
  Claim C4, as stated, fails: \<^verbatim>\<open>DoNothing\<close> is a non-forward action, and a unit in
  \<^verbatim>\<open>BWD_2\<close> that receives it stays in \<^verbatim>\<open>BWD_2\<close> with outcome \<^verbatim>\<open>NONE\<close>.
\<close>

theorem pending_promotion_counterexample:
  "movementState pending2_tank = BWD_2
   \<and> fst (transitionMovementState pending2_tank DoNothing) = NONE
   \<and> movementState (snd (transitionMovementState pending2_tank DoNothing)) = BWD_2"
  by (simp add: pending2_tank_def new_Tank_def transitionMovementState_def)

text \<open>
  Claim C4, amended. For every unit in \<^verbatim>\<open>BWD_1\<close> or \<^verbatim>\<open>BWD_2\<close>: a forward-move request
  returns it to \<^verbatim>\<open>INITIAL\<close> with outcome \<^verbatim>\<open>STATE_CHANGED\<close>, no move intent and its
  position unchanged. A backward-move, any of the four rotations or a shoot request
  advances the pending counter without honouring the rotation or the shot (cannon
  direction, ammo and cooldown unchanged, no projectile): from \<^verbatim>\<open>BWD_1\<close> to \<^verbatim>\<open>BWD_2\<close>
  with \<^verbatim>\<open>STATE_CHANGED\<close>, and from \<^verbatim>\<open>BWD_2\<close> to \<^verbatim>\<open>MOVING_BWD\<close> with multiplier \<open>-1\<close>
  and outcome \<^verbatim>\<open>MOVE_PENDING\<close>. The two remaining requests do not touch the movement
  state: \<^verbatim>\<open>DoNothing\<close> yields \<^verbatim>\<open>NONE\<close> and \<^verbatim>\<open>GetBattleInfo\<close> yields
  \<^verbatim>\<open>RETURNING_BATTLE_INFO\<close>.
\<close>

theorem pending_window_transitions:
  fixes t :: Tank and a :: ActionRequest
  defines "r \<equiv> request_action t a"
  assumes pending: "movementState t = BWD_1 \<or> movementState t = BWD_2"
  shows "(a = MoveForward \<longrightarrow>
            fst r = STATE_CHANGED \<and> movementState (snd (snd r)) = INITIAL
            \<and> \<not> move_intent_this_step (snd (snd r)))
         \<and> (confirms_backward a \<longrightarrow>
            (movementState t = BWD_1 \<longrightarrow>
               fst r = STATE_CHANGED \<and> movementState (snd (snd r)) = BWD_2
               \<and> \<not> move_intent_this_step (snd (snd r)))
            \<and> (movementState t = BWD_2 \<longrightarrow>
               fst r = MOVE_PENDING \<and> movementState (snd (snd r)) = MOVING_BWD
               \<and> multiplier (snd (snd r)) = - 1 \<and> move_intent_this_step (snd (snd r))))
         \<and> (a = DoNothing \<longrightarrow>
            fst r = NONE \<and> movementState (snd (snd r)) = movementState t)
         \<and> (a = GetBattleInfo \<longrightarrow>
            fst r = RETURNING_BATTLE_INFO \<and> movementState (snd (snd r)) = movementState t)
         \<and> fst (snd r) = None
         \<and> position (snd (snd r)) = position t
         \<and> cannonDirection (snd (snd r)) = cannonDirection t
         \<and> shells_remaining (snd (snd r)) = shells_remaining t
         \<and> cooldown_remaining (snd (snd r)) = cooldown_remaining t"
  using pending
  by (cases a;
      auto simp add: r_def request_action_def transitionMovementState_def
        confirm_backward_def Let_def)

theorem pending_window_transitions_witness:
  "movementState pending1_tank = BWD_1
   \<and> fst (request_action pending1_tank MoveForward) = STATE_CHANGED
   \<and> movementState (snd (snd (request_action pending1_tank MoveForward))) = INITIAL
   \<and> position (snd (snd (request_action pending1_tank MoveForward))) = Position 2 2
   \<and> movementState pending2_tank = BWD_2
   \<and> fst (request_action pending2_tank RotateLeft45) = MOVE_PENDING
   \<and> movementState (snd (snd (request_action pending2_tank RotateLeft45))) = MOVING_BWD
   \<and> multiplier (snd (snd (request_action pending2_tank RotateLeft45))) = - 1
   \<and> cannonDirection (snd (snd (request_action pending2_tank RotateLeft45))) = LEFT"
proof -
  have p1: "movementState pending1_tank = BWD_1" "position pending1_tank = Position 2 2"
    by (simp_all add: pending1_tank_def new_Tank_def)
  have p2: "movementState pending2_tank = BWD_2" "cannonDirection pending2_tank = LEFT"
    by (simp_all add: pending2_tank_def new_Tank_def)
  show ?thesis
    using p1 p2 pending_window_transitions [of pending1_tank MoveForward]
      pending_window_transitions [of pending2_tank RotateLeft45]
    by simp
qed

section \<open>The board state (GameState.h)\<close>

text \<open>
  \<^verbatim>\<open>GameState::objects\<close> is a vector of shared pointers to objects of the four classes.
  It is a list of tagged objects here; a pointer into the vector is an index into the
  list. The vector never holds a null pointer (only \<^verbatim>\<open>addObject\<close> of a freshly made
  object fills it).
\<close>

datatype Obj = TankObj Tank | ShellObj Shell | WallObj Wall | MineObj Mine

fun obj_position :: "Obj \<Rightarrow> Position" where
  "obj_position (TankObj t) = position t"
| "obj_position (ShellObj s) = position s"
| "obj_position (WallObj w) = position w"
| "obj_position (MineObj m) = position m"

fun obj_is_destroyed :: "Obj \<Rightarrow> bool" where
  "obj_is_destroyed (TankObj t) = is_destroyed t"
| "obj_is_destroyed (ShellObj s) = is_destroyed s"
| "obj_is_destroyed (WallObj w) = is_destroyed w"
| "obj_is_destroyed (MineObj m) = is_destroyed m"

fun obj_render :: "Obj \<Rightarrow> char" where
  "obj_render (TankObj t) = render t"
| "obj_render (ShellObj s) = render s"
| "obj_render (WallObj w) = render w"
| "obj_render (MineObj m) = render m"

fun is_shell :: "Obj \<Rightarrow> bool" where
  "is_shell (ShellObj s) = True"
| "is_shell _ = False"

fun is_wall :: "Obj \<Rightarrow> bool" where
  "is_wall (WallObj w) = True"
| "is_wall _ = False"

fun is_tank :: "Obj \<Rightarrow> bool" where
  "is_tank (TankObj t) = True"
| "is_tank _ = False"

record GameState =
  board_width :: int
  board_height :: int
  objects :: "Obj list"

definition isValidPosition :: "GameState \<Rightarrow> Position \<Rightarrow> bool" where
  "isValidPosition st pos \<longleftrightarrow>
     px pos \<ge> 0 \<and> py pos \<ge> 0 \<and> px pos < board_width st \<and> py pos < board_height st"

subsection \<open>\<^verbatim>\<open>GameState::clone\<close>\<close>

text \<open>
  The copy of one live object, as the \<^verbatim>\<open>switch\<close> of \<^verbatim>\<open>clone\<close> builds it. A tank is made
  by the \<^verbatim>\<open>Tank\<close> constructor (which draws a new id from the static counter) and then
  gets the original's ammo and cooldown; the other three kinds are made by their
  constructors from the position (and the direction of a shell) alone.
\<close>

fun clone_object :: "int \<Rightarrow> int \<Rightarrow> (int \<Rightarrow> int) \<Rightarrow> Obj \<Rightarrow> Obj" where
  "clone_object next_tank_id initial_shells m0 (TankObj tank) =
     TankObj ((new_Tank next_tank_id initial_shells (m0 next_tank_id)
                 (position tank) (player_id tank) (cannonDirection tank))
              \<lparr>shells_remaining := shells_remaining tank,
               cooldown_remaining := cooldown_remaining tank\<rparr>)"
| "clone_object next_tank_id initial_shells m0 (ShellObj shell) =
     ShellObj (new_Shell (position shell) (direction shell))"
| "clone_object next_tank_id initial_shells m0 (WallObj wall) =
     WallObj (new_Wall (position wall))"
| "clone_object next_tank_id initial_shells m0 (MineObj mine) =
     MineObj (new_Mine (position mine))"

text \<open>
  The loop of \<^verbatim>\<open>clone\<close>: destroyed objects are skipped, every other object is copied and
  appended. The static id counter is threaded through (it moves when a tank is made).
\<close>

fun clone_loop :: "int \<Rightarrow> (int \<Rightarrow> int) \<Rightarrow> int \<Rightarrow> Obj list \<Rightarrow> Obj list \<Rightarrow> int \<times> Obj list" where
  "clone_loop initial_shells m0 next_tank_id acc [] = (next_tank_id, acc)"
| "clone_loop initial_shells m0 next_tank_id acc (obj # rest) =
     (if obj_is_destroyed obj then clone_loop initial_shells m0 next_tank_id acc rest
      else clone_loop initial_shells m0
             (if is_tank obj then next_tank_id + 1 else next_tank_id)
             (acc @ [clone_object next_tank_id initial_shells m0 obj]) rest)"

definition clone :: "int \<Rightarrow> (int \<Rightarrow> int) \<Rightarrow> int \<Rightarrow> GameState \<Rightarrow> int \<times> GameState" where
  "clone initial_shells m0 next_tank_id st =
     (let (next_tank_id', objs) = clone_loop initial_shells m0 next_tank_id [] (objects st)
      in (next_tank_id',
          \<lparr> board_width = board_width st, board_height = board_height st, objects = objs \<rparr>))"

text \<open>What the copy of an object keeps and what it resets.\<close>

fun clone_of :: "Obj \<Rightarrow> Obj \<Rightarrow> bool" where
  "clone_of (TankObj a) (TankObj b) \<longleftrightarrow>
     position b = position a \<and> player_id b = player_id a
     \<and> cannonDirection b = cannonDirection a
     \<and> shells_remaining b = shells_remaining a
     \<and> cooldown_remaining b = cooldown_remaining a
     \<and> movementState b = INITIAL \<and> Tank.movement_progress b = 0
     \<and> \<not> move_intent_this_step b \<and> \<not> is_destroyed b"
| "clone_of (ShellObj a) (ShellObj b) \<longleftrightarrow>
     position b = position a \<and> direction b = direction a
     \<and> Shell.movement_progress b = 0 \<and> \<not> is_destroyed b"
| "clone_of (WallObj a) (WallObj b) \<longleftrightarrow>
     position b = position a \<and> health b = 2 \<and> \<not> is_destroyed b"
| "clone_of (MineObj a) (MineObj b) \<longleftrightarrow>
     position b = position a \<and> \<not> is_destroyed b"
| "clone_of _ _ \<longleftrightarrow> False"

text \<open>A board with a damaged wall, a destroyed shell and a tank that is reversing.\<close>

definition worn_state :: GameState where
  "worn_state =
     \<lparr> board_width = 4, board_height = 3,
       objects =
         [WallObj ((new_Wall (Position 1 1))\<lparr>health := 1\<rparr>),
          ShellObj ((new_Shell (Position 2 0) DOWN)\<lparr>is_destroyed := True\<rparr>),
          TankObj ((new_Tank 0 7 (- 1) (Position 3 2) 2 RIGHT)
                   \<lparr>movementState := MOVING_BWD, move_intent_this_step := True,
                    Tank.movement_progress := 1, cooldown_remaining := 3\<rparr>)] \<rparr>"

lemma clone_object_clone_of:
  "\<not> obj_is_destroyed obj \<Longrightarrow> clone_of obj (clone_object nid ish m0 obj)"
  by (cases obj) (simp_all add: new_Tank_def new_Shell_def new_Wall_def new_Mine_def)

lemma clone_loop_objects:
  "list_all2 clone_of xs acc \<Longrightarrow>
   list_all2 clone_of (xs @ filter (\<lambda>obj. \<not> obj_is_destroyed obj) objs)
     (snd (clone_loop ish m0 nid acc objs))"
proof (induction objs arbitrary: nid acc xs)
  case Nil
  then show ?case by simp
next
  case (Cons obj rest)
  show ?case
  proof (cases "obj_is_destroyed obj")
    case True
    with Cons show ?thesis by simp
  next
    case False
    have "list_all2 clone_of (xs @ [obj]) (acc @ [clone_object nid ish m0 obj])"
      using Cons.prems False by (simp add: list_all2_appendI clone_object_clone_of)
    from Cons.IH [OF this] False show ?thesis by simp
  qed
qed

text \<open>
  Claim C9. \<^verbatim>\<open>clone\<close> returns a state with the same dimensions whose objects are, in
  order, copies of exactly the non-destroyed objects of the original: each copy has the
  kind and position of its original, a tank copy keeps the player id, cannon direction,
  ammo and cooldown but is in \<^verbatim>\<open>INITIAL\<close> with progress 0 and no move intent, a shell
  copy keeps the direction with progress 0, and a wall copy has health 2.
\<close>

theorem clone_live_objects:
  "board_width (snd (clone ish m0 nid st)) = board_width st
   \<and> board_height (snd (clone ish m0 nid st)) = board_height st
   \<and> list_all2 clone_of (filter (\<lambda>obj. \<not> obj_is_destroyed obj) (objects st))
        (objects (snd (clone ish m0 nid st)))"
  using clone_loop_objects [of "[]" "[]" "objects st" ish m0 nid]
  by (simp add: clone_def case_prod_beta)

theorem clone_live_objects_witness:
  "objects (snd (clone 16 (\<lambda>i. 0) 5 worn_state)) =
     [WallObj (new_Wall (Position 1 1)),
      TankObj ((new_Tank 5 16 0 (Position 3 2) 2 RIGHT)
               \<lparr>shells_remaining := 7, cooldown_remaining := 3\<rparr>)]
   \<and> list_all2 clone_of (filter (\<lambda>obj. \<not> obj_is_destroyed obj) (objects worn_state))
        (objects (snd (clone 16 (\<lambda>i. 0) 5 worn_state)))"
proof -
  have "objects (snd (clone 16 (\<lambda>i. 0) 5 worn_state)) =
     [WallObj (new_Wall (Position 1 1)),
      TankObj ((new_Tank 5 16 0 (Position 3 2) 2 RIGHT)
               \<lparr>shells_remaining := 7, cooldown_remaining := 3\<rparr>)]"
    by (simp add: clone_def worn_state_def new_Wall_def new_Shell_def new_Tank_def)
  then show ?thesis
    using clone_live_objects [of 16 "\<lambda>i. 0" 5 worn_state] by simp
qed

section \<open>The observation snapshot (GameManager::executeImmediateActions, MySatelliteView.h)\<close>

text \<open>
  \<^verbatim>\<open>board_matrix[x][y]\<close> is a vector of \<^verbatim>\<open>board_width\<close> columns of \<^verbatim>\<open>board_height\<close>
  characters. A write outside the vector is undefined behaviour in the source; the
  engine keeps every live object inside the board, which the theorems assume.
\<close>

definition set_cell :: "char list list \<Rightarrow> Position \<Rightarrow> char \<Rightarrow> char list list" where
  "set_cell m pos c = m[nat (px pos) := (m ! nat (px pos))[nat (py pos) := c]]"

definition blank_matrix :: "int \<Rightarrow> int \<Rightarrow> char list list" where
  "blank_matrix w h = replicate (nat w) (replicate (nat h) (CHR '' ''))"

text \<open>The bodies of the two drawing loops at the head of \<^verbatim>\<open>executeImmediateActions\<close>.\<close>

definition draw_object :: "char list list \<Rightarrow> Obj \<Rightarrow> char list list" where
  "draw_object m obj =
     (if obj_is_destroyed obj then m else set_cell m (obj_position obj) (obj_render obj))"

definition draw_shell :: "char list list \<Rightarrow> Obj \<Rightarrow> char list list" where
  "draw_shell m obj =
     (if obj_is_destroyed obj then m
      else if is_shell obj then set_cell m (obj_position obj) (obj_render obj) else m)"

definition build_board_matrix :: "GameState \<Rightarrow> char list list" where
  "build_board_matrix st =
     foldl draw_shell
       (foldl draw_object (blank_matrix (board_width st) (board_height st)) (objects st))
       (objects st)"

text \<open>\<^verbatim>\<open>MySatelliteView::getObjectAt\<close>, the read access a strategy has to a snapshot.\<close>

definition SatelliteView_getObjectAt :: "char list list \<Rightarrow> nat \<Rightarrow> nat \<Rightarrow> char" where
  "SatelliteView_getObjectAt m x y =
     (if m = [] \<or> x \<ge> length m \<or> m ! 0 = [] \<or> y \<ge> length (m ! 0) then CHR ''&''
      else m ! x ! y)"

definition view_at :: "char list list \<Rightarrow> Position \<Rightarrow> char" where
  "view_at m pos = SatelliteView_getObjectAt m (nat (px pos)) (nat (py pos))"

text \<open>
  The \<^verbatim>\<open>RETURNING_BATTLE_INFO\<close> branch for one unit: the unit's cell is overwritten with
  \<^verbatim>\<open>'%'\<close>, the matrix is copied into the view handed to the player, and the cell is
  then overwritten with the unit's own \<^verbatim>\<open>render()\<close>. The result is the snapshot and the
  matrix left for the units handled later in the same loop.
\<close>

definition battle_info_branch :: "char list list \<Rightarrow> Tank \<Rightarrow> char list list \<times> char list list" where
  "battle_info_branch board_matrix tank =
     (let marked = set_cell board_matrix (position tank) (CHR ''%'')
      in (marked, set_cell marked (position tank) (render tank)))"

text \<open>The symbols the constructors give the four kinds of object.\<close>

fun constructed_symbol :: "Obj \<Rightarrow> bool" where
  "constructed_symbol (TankObj t) \<longleftrightarrow>
     symbol t = (if player_id t = 1 then CHR ''1'' else CHR ''2'')"
| "constructed_symbol (ShellObj s) \<longleftrightarrow> symbol s = CHR ''*''"
| "constructed_symbol (WallObj w) \<longleftrightarrow> symbol w = CHR ''#''"
| "constructed_symbol (MineObj m) \<longleftrightarrow> symbol m = CHR ''@''"

text \<open>Every live object lies inside the board and carries its constructor's symbol.\<close>

definition objects_on_board :: "GameState \<Rightarrow> bool" where
  "objects_on_board st \<longleftrightarrow>
     (\<forall>obj \<in> set (objects st).
        constructed_symbol obj
        \<and> (\<not> obj_is_destroyed obj \<longrightarrow> isValidPosition st (obj_position obj)))"

definition matrix_dims :: "char list list \<Rightarrow> int \<Rightarrow> int \<Rightarrow> bool" where
  "matrix_dims m w h \<longleftrightarrow> length m = nat w \<and> (\<forall>col \<in> set m. length col = nat h)"

definition inside :: "int \<Rightarrow> int \<Rightarrow> Position \<Rightarrow> bool" where
  "inside w h pos \<longleftrightarrow> 0 \<le> px pos \<and> px pos < w \<and> 0 \<le> py pos \<and> py pos < h"

text \<open>
  What a cell of the board is expected to show: the live objects on the cell, in the
  order of the object vector; \<^verbatim>\<open>'*'\<close> if a projectile is among them, else the symbol of
  the one drawn last, else a blank.
\<close>

definition live_at :: "Obj list \<Rightarrow> Position \<Rightarrow> Obj list" where
  "live_at objs q = filter (\<lambda>obj. \<not> obj_is_destroyed obj \<and> obj_position obj = q) objs"

definition drawn_symbol :: "Obj list \<Rightarrow> Position \<Rightarrow> char" where
  "drawn_symbol objs q =
     (if \<exists>obj \<in> set (live_at objs q). is_shell obj then CHR ''*''
      else if live_at objs q = [] then CHR '' ''
      else obj_render (last (live_at objs q)))"

text \<open>
  The unit shares its cell with no other live object. The collision handlers destroy a
  unit that ends a sub-step on the cell of a projectile, a trap or another unit, and a
  wall blocks it; here it is an assumption on the board, made only where it is named.
\<close>

definition alone_on_cell :: "GameState \<Rightarrow> Tank \<Rightarrow> bool" where
  "alone_on_cell st tank \<longleftrightarrow>
     (\<forall>obj \<in> set (objects st).
        \<not> obj_is_destroyed obj \<and> obj_position obj = position tank \<longrightarrow> obj = TankObj tank)"

text \<open>A shell that lies on a mine, in front of a tank of player 1 (the mine is drawn last).\<close>

definition mined_state :: GameState where
  "mined_state =
     \<lparr> board_width = 3, board_height = 2,
       objects =
         [TankObj (new_Tank 0 16 1 (Position 0 1) 1 LEFT),
          ShellObj (new_Shell (Position 2 1) LEFT),
          MineObj (new_Mine (Position 2 1))] \<rparr>"

subsection \<open>Reading and writing cells\<close>

lemma matrix_dims_blank: "matrix_dims (blank_matrix w h) w h"
  by (simp add: matrix_dims_def blank_matrix_def)

lemma matrix_dims_set_cell:
  assumes "matrix_dims m w h"
  shows "matrix_dims (set_cell m pos c) w h"
proof (cases "nat (px pos) < length m")
  case True
  then have "m ! nat (px pos) \<in> set m" by simp
  with assms have len: "length ((m ! nat (px pos))[nat (py pos) := c]) = nat h"
    by (simp add: matrix_dims_def)
  have "set (set_cell m pos c) \<subseteq> insert ((m ! nat (px pos))[nat (py pos) := c]) (set m)"
    unfolding set_cell_def by (rule set_update_subset_insert)
  with assms len show ?thesis
    by (auto simp add: matrix_dims_def set_cell_def)
next
  case False
  with assms show ?thesis by (simp add: set_cell_def list_update_beyond)
qed

lemma view_at_inside:
  assumes "matrix_dims m w h" and "inside w h pos"
  shows "view_at m pos = m ! nat (px pos) ! nat (py pos)"
proof -
  from assms have x: "nat (px pos) < length m" and w: "0 < length m"
    by (auto simp add: matrix_dims_def inside_def)
  then have "m ! 0 \<in> set m" and "m ! nat (px pos) \<in> set m"
    by simp_all
  with assms have "length (m ! 0) = nat h" and "nat (py pos) < nat h"
    by (auto simp add: matrix_dims_def inside_def)
  with x w show ?thesis
    by (auto simp add: view_at_def SatelliteView_getObjectAt_def)
qed

lemma view_at_set_cell:
  assumes "matrix_dims m w h" and "inside w h pos" and "inside w h q"
  shows "view_at (set_cell m pos c) q = (if q = pos then c else view_at m q)"
proof -
  have d: "matrix_dims (set_cell m pos c) w h"
    using assms(1) by (rule matrix_dims_set_cell)
  from assms have x: "nat (px pos) < length m" "nat (px q) < length m"
    by (auto simp add: matrix_dims_def inside_def)
  then have "m ! nat (px pos) \<in> set m" by simp
  with assms have y: "nat (py pos) < length (m ! nat (px pos))"
    by (auto simp add: matrix_dims_def inside_def)
  have eq: "q = pos \<longleftrightarrow> nat (px q) = nat (px pos) \<and> nat (py q) = nat (py pos)"
    using assms(2,3) by (cases q; cases pos) (auto simp add: inside_def)
  show ?thesis
    unfolding view_at_inside [OF d assms(3)] view_at_inside [OF assms(1) assms(3)]
    using x y eq by (auto simp add: set_cell_def nth_list_update)
qed

lemma set_cell_same:
  assumes "matrix_dims m w h" and "inside w h pos" and "view_at m pos = c"
  shows "set_cell m pos c = m"
proof -
  have "c = m ! nat (px pos) ! nat (py pos)"
    using assms by (simp add: view_at_inside)
  then show ?thesis
    by (simp add: set_cell_def)
qed

lemma set_cell_twice: "set_cell (set_cell m pos c) pos d = set_cell m pos d"
  by (cases "nat (px pos) < length m") (simp_all add: set_cell_def list_update_beyond)

subsection \<open>Drawing\<close>

lemma matrix_dims_draw_object:
  "matrix_dims m w h \<Longrightarrow> matrix_dims (foldl draw_object m objs) w h"
  by (induction objs arbitrary: m) (simp_all add: draw_object_def matrix_dims_set_cell)

lemma matrix_dims_draw_shell:
  "matrix_dims m w h \<Longrightarrow> matrix_dims (foldl draw_shell m objs) w h"
  by (induction objs arbitrary: m) (simp_all add: draw_shell_def matrix_dims_set_cell)

lemma shell_render:
  "is_shell obj \<Longrightarrow> constructed_symbol obj \<Longrightarrow> \<not> obj_is_destroyed obj \<Longrightarrow>
   obj_render obj = CHR ''*''"
  by (cases obj) (simp_all add: render_def)

lemma view_at_draw_shell:
  assumes "matrix_dims m w h"
    and "\<forall>obj \<in> set objs. constructed_symbol obj
           \<and> (\<not> obj_is_destroyed obj \<longrightarrow> inside w h (obj_position obj))"
    and "inside w h q"
  shows "view_at (foldl draw_shell m objs) q =
     (if \<exists>obj \<in> set objs. is_shell obj \<and> \<not> obj_is_destroyed obj \<and> obj_position obj = q
      then CHR ''*'' else view_at m q)"
  using assms
proof (induction objs arbitrary: m)
  case Nil
  then show ?case by simp
next
  case (Cons obj rest)
  have d: "matrix_dims (draw_shell m obj) w h"
    using Cons.prems(1) by (simp add: draw_shell_def matrix_dims_set_cell)
  have step: "view_at (draw_shell m obj) q =
     (if is_shell obj \<and> \<not> obj_is_destroyed obj \<and> obj_position obj = q
      then CHR ''*'' else view_at m q)"
    using Cons.prems by (auto simp add: draw_shell_def view_at_set_cell shell_render)
  have "view_at (foldl draw_shell (draw_shell m obj) rest) q =
     (if \<exists>obj \<in> set rest. is_shell obj \<and> \<not> obj_is_destroyed obj \<and> obj_position obj = q
      then CHR ''*'' else view_at (draw_shell m obj) q)"
    using Cons.IH [OF d] Cons.prems(2,3) by simp
  with step show ?case by auto
qed

lemma inside_valid: "isValidPosition st pos \<longleftrightarrow> inside (board_width st) (board_height st) pos"
  by (auto simp add: isValidPosition_def inside_def)

lemma build_dims: "matrix_dims (build_board_matrix st) (board_width st) (board_height st)"
  by (simp add: build_board_matrix_def matrix_dims_draw_shell matrix_dims_draw_object
      matrix_dims_blank)

lemma build_shell_cell:
  assumes "objects_on_board st" and "obj \<in> set (objects st)" and "is_shell obj"
    and "\<not> obj_is_destroyed obj"
  shows "view_at (build_board_matrix st) (obj_position obj) = CHR ''*''"
proof -
  let ?m = "foldl draw_object (blank_matrix (board_width st) (board_height st)) (objects st)"
  have d: "matrix_dims ?m (board_width st) (board_height st)"
    by (simp add: matrix_dims_draw_object matrix_dims_blank)
  have all: "\<forall>obj \<in> set (objects st). constructed_symbol obj
           \<and> (\<not> obj_is_destroyed obj \<longrightarrow> inside (board_width st) (board_height st) (obj_position obj))"
    using assms(1) by (simp add: objects_on_board_def inside_valid)
  with assms have q: "inside (board_width st) (board_height st) (obj_position obj)"
    by blast
  show ?thesis
    unfolding build_board_matrix_def view_at_draw_shell [OF d all q]
    using assms by auto
qed

lemma view_at_blank:
  assumes "inside w h q"
  shows "view_at (blank_matrix w h) q = CHR '' ''"
proof -
  from assms have "nat (px q) < nat w" "nat (py q) < nat h"
    by (auto simp add: inside_def)
  then show ?thesis
    unfolding view_at_inside [OF matrix_dims_blank assms]
    by (simp add: blank_matrix_def)
qed

lemma view_at_draw_object:
  assumes "matrix_dims m w h"
    and "\<forall>obj \<in> set objs. \<not> obj_is_destroyed obj \<longrightarrow> inside w h (obj_position obj)"
    and "inside w h q"
  shows "view_at (foldl draw_object m objs) q =
     (if live_at objs q = [] then view_at m q else obj_render (last (live_at objs q)))"
  using assms
proof (induction objs arbitrary: m)
  case Nil
  then show ?case by (simp add: live_at_def)
next
  case (Cons obj rest)
  have d: "matrix_dims (draw_object m obj) w h"
    using Cons.prems(1) by (simp add: draw_object_def matrix_dims_set_cell)
  have step: "view_at (draw_object m obj) q =
     (if \<not> obj_is_destroyed obj \<and> obj_position obj = q then obj_render obj else view_at m q)"
    using Cons.prems by (auto simp add: draw_object_def view_at_set_cell)
  have "view_at (foldl draw_object (draw_object m obj) rest) q =
     (if live_at rest q = [] then view_at (draw_object m obj) q
      else obj_render (last (live_at rest q)))"
    using Cons.IH [OF d] Cons.prems(2,3) by simp
  with step show ?case by (simp add: live_at_def)
qed

lemma build_cell:
  assumes "objects_on_board st" and "isValidPosition st q"
  shows "view_at (build_board_matrix st) q = drawn_symbol (objects st) q"
proof -
  let ?w = "board_width st" and ?h = "board_height st"
  let ?m = "foldl draw_object (blank_matrix ?w ?h) (objects st)"
  have d: "matrix_dims ?m ?w ?h"
    by (simp add: matrix_dims_draw_object matrix_dims_blank)
  have all: "\<forall>obj \<in> set (objects st). constructed_symbol obj
           \<and> (\<not> obj_is_destroyed obj \<longrightarrow> inside ?w ?h (obj_position obj))"
    using assms(1) by (simp add: objects_on_board_def inside_valid)
  then have ins: "\<forall>obj \<in> set (objects st). \<not> obj_is_destroyed obj \<longrightarrow> inside ?w ?h (obj_position obj)"
    by blast
  have q: "inside ?w ?h q"
    using assms(2) by (simp add: inside_valid)
  have first: "view_at ?m q =
     (if live_at (objects st) q = [] then CHR '' ''
      else obj_render (last (live_at (objects st) q)))"
    by (simp add: view_at_draw_object [OF matrix_dims_blank ins q] view_at_blank [OF q])
  have shells: "(\<exists>obj \<in> set (objects st). is_shell obj \<and> \<not> obj_is_destroyed obj \<and> obj_position obj = q)
      \<longleftrightarrow> (\<exists>obj \<in> set (live_at (objects st) q). is_shell obj)"
    by (auto simp add: live_at_def)
  show ?thesis
    unfolding build_board_matrix_def view_at_draw_shell [OF d all q] first shells drawn_symbol_def
    by simp
qed

lemma alone_drawn:
  assumes "alone_on_cell st tank" and "TankObj tank \<in> set (objects st)"
    and "\<not> is_destroyed tank"
  shows "drawn_symbol (objects st) (position tank) = symbol tank"
proof -
  let ?xs = "live_at (objects st) (position tank)"
  have mem: "TankObj tank \<in> set ?xs"
    using assms(2,3) by (simp add: live_at_def)
  then have ne: "?xs \<noteq> []" by auto
  have only: "obj = TankObj tank" if "obj \<in> set ?xs" for obj
    using that assms(1) by (auto simp add: alone_on_cell_def live_at_def)
  from ne have "last ?xs \<in> set ?xs" by (rule last_in_set)
  then have l: "last ?xs = TankObj tank" by (rule only)
  have "\<not> (\<exists>obj \<in> set ?xs. is_shell obj)"
  proof
    assume "\<exists>obj \<in> set ?xs. is_shell obj"
    then obtain obj where o: "obj \<in> set ?xs" "is_shell obj" by blast
    from only [OF o(1)] o(2) show False by simp
  qed
  with ne l assms(3) show ?thesis
    by (simp add: drawn_symbol_def render_def)
qed

text \<open>
  Claim C10. The matrix built for the info requests of a tick shows, on every cell of
  the board, what the two drawing loops leave there: \<^verbatim>\<open>'*'\<close> if a live projectile lies on
  the cell, whatever else lies on it (the live projectiles are drawn again after all
  live objects); otherwise the symbol of the live object on the cell that comes last in
  the object vector; a blank if no live object lies there. For the requesting unit, the
  snapshot reads \<^verbatim>\<open>'%'\<close> on the unit's own cell and agrees with the matrix on every other
  cell of the board; the marker is in that snapshot only: afterwards the unit's cell
  reads the unit's own symbol, which is not \<^verbatim>\<open>'%'\<close>, and every other cell is as built.
  The matrix afterwards is the matrix built exactly when the unit's cell was due to show
  the unit's symbol; that is so for a unit that shares its cell with no other live
  object.
\<close>

theorem snapshot_projectile_precedence:
  fixes st :: GameState and tank :: Tank
  defines "m \<equiv> build_board_matrix st"
  defines "snap \<equiv> fst (battle_info_branch m tank)"
  defines "m' \<equiv> snd (battle_info_branch m tank)"
  assumes ok: "objects_on_board st"
  shows "(\<forall>q. isValidPosition st q \<longrightarrow> view_at m q = drawn_symbol (objects st) q)
         \<and> (\<forall>obj \<in> set (objects st). is_shell obj \<and> \<not> obj_is_destroyed obj \<longrightarrow>
            view_at m (obj_position obj) = CHR ''*'')
         \<and> (TankObj tank \<in> set (objects st) \<and> \<not> is_destroyed tank \<longrightarrow>
              view_at snap (position tank) = CHR ''%''
              \<and> view_at m' (position tank) = symbol tank
              \<and> symbol tank \<noteq> CHR ''%''
              \<and> (\<forall>q. isValidPosition st q \<and> q \<noteq> position tank \<longrightarrow>
                    view_at snap q = view_at m q \<and> view_at m' q = view_at m q)
              \<and> (m' = m \<longleftrightarrow> drawn_symbol (objects st) (position tank) = symbol tank)
              \<and> (alone_on_cell st tank \<longrightarrow>
                    view_at m (position tank) = symbol tank \<and> m' = m))"
proof (intro conjI impI ballI allI)
  fix q assume "isValidPosition st q"
  with ok show "view_at m q = drawn_symbol (objects st) q"
    unfolding m_def by (rule build_cell)
next
  fix obj assume "obj \<in> set (objects st)" "is_shell obj \<and> \<not> obj_is_destroyed obj"
  then show "view_at m (obj_position obj) = CHR ''*''"
    using ok by (simp add: m_def build_shell_cell)
next
  assume t: "TankObj tank \<in> set (objects st) \<and> \<not> is_destroyed tank"
  have d: "matrix_dims m (board_width st) (board_height st)"
    by (simp add: m_def build_dims)
  have v: "isValidPosition st (position tank)"
    using ok t by (force simp add: objects_on_board_def)
  then have p: "inside (board_width st) (board_height st) (position tank)"
    by (simp add: inside_valid)
  have snap: "snap = set_cell m (position tank) (CHR ''%'')"
    by (simp add: snap_def battle_info_branch_def Let_def)
  have m': "m' = set_cell m (position tank) (symbol tank)"
    using t by (simp add: m'_def battle_info_branch_def Let_def set_cell_twice render_def)
  show "view_at snap (position tank) = CHR ''%''"
    by (simp add: snap view_at_set_cell [OF d p p])
  show "view_at m' (position tank) = symbol tank"
    by (simp add: m' view_at_set_cell [OF d p p])
  have "constructed_symbol (TankObj tank)"
    using ok t by (auto simp add: objects_on_board_def)
  then show "symbol tank \<noteq> CHR ''%''"
    by (simp split: if_splits)
  have same: "m' = m" if "view_at m (position tank) = symbol tank"
    using that by (simp add: m' set_cell_same [OF d p])
  have built: "view_at m (position tank) = drawn_symbol (objects st) (position tank)"
    unfolding m_def using ok v by (rule build_cell)
  show "m' = m \<longleftrightarrow> drawn_symbol (objects st) (position tank) = symbol tank"
  proof
    assume "m' = m"
    then have "view_at m (position tank) = view_at m' (position tank)" by simp
    also have "\<dots> = symbol tank"
      by (simp add: m' view_at_set_cell [OF d p p])
    finally show "drawn_symbol (objects st) (position tank) = symbol tank"
      using built by simp
  next
    assume "drawn_symbol (objects st) (position tank) = symbol tank"
    with built show "m' = m" by (simp add: same)
  qed
  {
    fix q assume "isValidPosition st q \<and> q \<noteq> position tank"
    then show "view_at snap q = view_at m q" "view_at m' q = view_at m q"
      by (simp_all add: snap m' inside_valid view_at_set_cell [OF d p])
  }
  {
    assume a: "alone_on_cell st tank"
    from a t have "drawn_symbol (objects st) (position tank) = symbol tank"
      by (simp add: alone_drawn)
    with built show "view_at m (position tank) = symbol tank" by simp
    then show "m' = m" by (rule same)
  }
qed

theorem snapshot_projectile_precedence_witness:
  "objects_on_board mined_state
   \<and> build_board_matrix mined_state = ['' 1'', ''  '', '' *'']
   \<and> fst (battle_info_branch (build_board_matrix mined_state)
             (new_Tank 0 16 1 (Position 0 1) 1 LEFT)) = ['' %'', ''  '', '' *'']
   \<and> snd (battle_info_branch (build_board_matrix mined_state)
             (new_Tank 0 16 1 (Position 0 1) 1 LEFT)) = build_board_matrix mined_state"
proof -
  let ?t = "new_Tank 0 16 1 (Position 0 1) 1 LEFT"
  have ok: "objects_on_board mined_state"
    by (simp add: objects_on_board_def mined_state_def isValidPosition_def new_Tank_def
        new_Shell_def new_Mine_def)
  have mem: "TankObj ?t \<in> set (objects mined_state) \<and> \<not> is_destroyed ?t"
    by (simp add: mined_state_def new_Tank_def)
  have alone: "alone_on_cell mined_state ?t"
    by (simp add: alone_on_cell_def mined_state_def new_Tank_def new_Shell_def new_Mine_def)
  have b: "build_board_matrix mined_state = ['' 1'', ''  '', '' *'']"
    by (simp add: build_board_matrix_def mined_state_def blank_matrix_def draw_object_def
        draw_shell_def set_cell_def render_def new_Tank_def new_Shell_def new_Mine_def
        eval_nat_numeral)
  have s: "fst (battle_info_branch ['' 1'', ''  '', '' *''] ?t) = ['' %'', ''  '', '' *'']"
    by (simp add: battle_info_branch_def Let_def set_cell_def new_Tank_def)
  from snapshot_projectile_precedence [OF ok, of ?t] mem alone
  have "snd (battle_info_branch (build_board_matrix mined_state) ?t)
      = build_board_matrix mined_state"
    by blast
  with ok b s show ?thesis by simp
qed

section \<open>Projectiles against obstacles (Wall.h, GameManager::resolveShellWallCollisions)\<close>

text \<open>\<^verbatim>\<open>Wall::takeDamage\<close>: whether the wall died, and the wall afterwards.\<close>

definition takeDamage :: "Wall \<Rightarrow> bool \<times> Wall" where
  "takeDamage w =
     (let w1 = w\<lparr>health := health w - 1\<rparr>
      in if health w1 \<le> 0 then (True, w1\<lparr>is_destroyed := True\<rparr>) else (False, w1))"

text \<open>
  \<^verbatim>\<open>GameState::getObjectAt\<close>: the first object of the vector that is not destroyed and
  lies on the position, as its index.
\<close>

fun getObjectAt_from :: "nat \<Rightarrow> Obj list \<Rightarrow> Position \<Rightarrow> nat option" where
  "getObjectAt_from i [] pos = None"
| "getObjectAt_from i (obj # rest) pos =
     (if \<not> obj_is_destroyed obj \<and> obj_position obj = pos then Some i
      else getObjectAt_from (Suc i) rest pos)"

definition getObjectAt :: "Obj list \<Rightarrow> Position \<Rightarrow> nat option" where
  "getObjectAt objs pos = getObjectAt_from 0 objs pos"

definition getWallAt :: "Obj list \<Rightarrow> Position \<Rightarrow> nat option" where
  "getWallAt objs pos =
     (case getObjectAt objs pos of
        None \<Rightarrow> None
      | Some i \<Rightarrow> if is_wall (objs ! i) then Some i else None)"

text \<open>The positions of the live walls, as \<^verbatim>\<open>resolveCollisionsSubStep\<close> collects them.\<close>

definition wall_positions_of :: "Obj list \<Rightarrow> Position set" where
  "wall_positions_of objs =
     set (map obj_position (filter (\<lambda>obj. \<not> obj_is_destroyed obj \<and> is_wall obj) objs))"

text \<open>
  The body of the loop of \<^verbatim>\<open>resolveShellWallCollisions\<close> for one entry of
  \<^verbatim>\<open>shells_intended_positions\<close>: a pointer to a shell (an index) and its intended
  position.
\<close>

definition shell_wall_body :: "Position set \<Rightarrow> Obj list \<Rightarrow> nat \<times> Position \<Rightarrow> Obj list" where
  "shell_wall_body wall_positions objs entry =
     (case entry of (si, pos) \<Rightarrow>
        if si < length objs then
          (case objs ! si of
             ShellObj shell \<Rightarrow>
               if \<not> is_destroyed shell \<and> pos \<in> wall_positions then
                 (case getWallAt objs pos of
                    None \<Rightarrow> objs
                  | Some wi \<Rightarrow>
                      (case objs ! wi of
                         WallObj wall \<Rightarrow>
                           if \<not> is_destroyed wall then
                             objs[wi := WallObj (snd (takeDamage wall)),
                                  si := ShellObj (shell\<lparr>is_destroyed := True\<rparr>)]
                           else objs
                       | _ \<Rightarrow> objs))
               else objs
           | _ \<Rightarrow> objs)
        else objs)"

definition resolveShellWallCollisions ::
  "Obj list \<Rightarrow> (nat \<times> Position) list \<Rightarrow> Position set \<Rightarrow> Obj list" where
  "resolveShellWallCollisions objs shells_intended_positions wall_positions =
     foldl (shell_wall_body wall_positions) objs shells_intended_positions"

text \<open>
  A wall is hit by the entry when the body reaches \<^verbatim>\<open>takeDamage\<close>: the entry's shell is
  live, its intended position is among the wall positions, and \<^verbatim>\<open>getWallAt\<close> finds the
  wall.
\<close>

definition hits :: "Position set \<Rightarrow> Obj list \<Rightarrow> nat \<times> Position \<Rightarrow> nat \<Rightarrow> bool" where
  "hits wall_positions objs entry wi \<longleftrightarrow>
     (case entry of (si, pos) \<Rightarrow>
        si < length objs \<and> is_shell (objs ! si) \<and> \<not> obj_is_destroyed (objs ! si)
        \<and> pos \<in> wall_positions \<and> getWallAt objs pos = Some wi)"

text \<open>The health of a wall object (0 for the other kinds, which have none).\<close>

fun obj_health :: "Obj \<Rightarrow> int" where
  "obj_health (WallObj w) = health w"
| "obj_health _ = 0"

text \<open>
  The states of the object vector that the engine can reach, as far as walls are
  concerned. World population creates every wall with the \<^verbatim>\<open>Wall\<close> constructor;
  \<^verbatim>\<open>resolveShellWallCollisions\<close> is the only caller of \<^verbatim>\<open>takeDamage\<close>, and no other code
  writes the health or the destroyed flag of a wall. Every other step of the engine
  (moving and destroying units, projectiles and traps, adding projectiles, purging
  destroyed objects) leaves each wall it keeps as it was and adds none: that is the
  third rule.
\<close>

definition walls_of :: "Obj list \<Rightarrow> Wall set" where
  "walls_of objs = {w. WallObj w \<in> set objs}"

inductive reachable_objects :: "Obj list \<Rightarrow> bool" where
  populated: "\<forall>w \<in> walls_of objs. \<exists>pos. w = new_Wall pos \<Longrightarrow> reachable_objects objs"
| shells_hit: "reachable_objects objs \<Longrightarrow>
     reachable_objects (resolveShellWallCollisions objs shells_intended_positions wall_positions)"
| others: "reachable_objects objs \<Longrightarrow> walls_of objs' \<subseteq> walls_of objs \<Longrightarrow>
     reachable_objects objs'"

text \<open>A fresh wall between two projectiles that fly at it from both sides.\<close>

definition crossfire_objects :: "Obj list" where
  "crossfire_objects =
     [WallObj (new_Wall (Position 1 0)),
      ShellObj (new_Shell (Position 0 0) RIGHT),
      ShellObj (new_Shell (Position 2 0) LEFT)]"

definition wall_ok :: "Wall \<Rightarrow> bool" where
  "wall_ok w \<longleftrightarrow> 0 \<le> health w \<and> health w \<le> 2 \<and> (is_destroyed w \<longleftrightarrow> health w = 0)"

lemma getObjectAt_from_Some:
  "getObjectAt_from k objs pos = Some i \<Longrightarrow>
   k \<le> i \<and> i - k < length objs \<and> \<not> obj_is_destroyed (objs ! (i - k))
   \<and> obj_position (objs ! (i - k)) = pos"
proof (induction objs arbitrary: k)
  case Nil
  then show ?case by simp
next
  case (Cons obj rest)
  show ?case
  proof (cases "\<not> obj_is_destroyed obj \<and> obj_position obj = pos")
    case True
    with Cons.prems show ?thesis by simp
  next
    case False
    with Cons.prems have "getObjectAt_from (Suc k) rest pos = Some i" by auto
    from Cons.IH [OF this] have "Suc k \<le> i" "i - Suc k < length rest"
        "\<not> obj_is_destroyed (rest ! (i - Suc k))" "obj_position (rest ! (i - Suc k)) = pos"
      by simp_all
    moreover from \<open>Suc k \<le> i\<close> have "i - k = Suc (i - Suc k)" by simp
    ultimately show ?thesis by simp
  qed
qed

lemma getWallAt_Some:
  assumes "getWallAt objs pos = Some wi"
  shows "wi < length objs \<and> (\<exists>w. objs ! wi = WallObj w \<and> \<not> is_destroyed w \<and> position w = pos)"
proof -
  from assms have g: "getObjectAt_from 0 objs pos = Some wi" and w: "is_wall (objs ! wi)"
    by (auto simp add: getWallAt_def getObjectAt_def split: option.splits if_splits)
  from getObjectAt_from_Some [OF g] have "wi < length objs" "\<not> obj_is_destroyed (objs ! wi)"
      "obj_position (objs ! wi) = pos"
    by simp_all
  with w show ?thesis by (cases "objs ! wi") auto
qed

lemma takeDamage_ok:
  assumes "wall_ok w" and "\<not> is_destroyed w"
  shows "health (snd (takeDamage w)) = health w - 1 \<and> wall_ok (snd (takeDamage w))
    \<and> position (snd (takeDamage w)) = position w"
  using assms by (auto simp add: takeDamage_def wall_ok_def Let_def)

lemma walls_of_update_other:
  "\<not> is_wall obj \<Longrightarrow> walls_of (objs[i := obj]) \<subseteq> walls_of objs"
  using set_update_subset_insert [of objs i obj]
  by (cases obj) (auto simp add: walls_of_def)

lemma walls_of_update_wall:
  "walls_of (objs[i := WallObj w]) \<subseteq> insert w (walls_of objs)"
  using set_update_subset_insert [of objs i "WallObj w"]
  by (auto simp add: walls_of_def)


lemma shell_wall_body_cases:
  "(\<exists>si pos wi wall shell.
       entry = (si, pos) \<and> hits wps objs entry wi \<and> si < length objs \<and> wi < length objs
       \<and> objs ! wi = WallObj wall \<and> \<not> is_destroyed wall \<and> position wall = pos
       \<and> objs ! si = ShellObj shell \<and> \<not> is_destroyed shell
       \<and> shell_wall_body wps objs entry =
           objs[wi := WallObj (snd (takeDamage wall)),
                si := ShellObj (shell\<lparr>is_destroyed := True\<rparr>)])
   \<or> ((\<forall>wi. \<not> hits wps objs entry wi) \<and> shell_wall_body wps objs entry = objs)"
proof (cases entry)
  case (Pair si pos)
  show ?thesis
  proof (cases "\<exists>wi. hits wps objs entry wi")
    case True
    then obtain wi where h: "hits wps objs entry wi" ..
    with Pair have si: "si < length objs" "is_shell (objs ! si)"
        "\<not> obj_is_destroyed (objs ! si)" "pos \<in> wps" and wi: "getWallAt objs pos = Some wi"
      by (simp_all add: hits_def)
    from si obtain shell where shell: "objs ! si = ShellObj shell" "\<not> is_destroyed shell"
      by (cases "objs ! si") auto
    from getWallAt_Some [OF wi] obtain wall where wall: "wi < length objs"
        "objs ! wi = WallObj wall" "\<not> is_destroyed wall" "position wall = pos"
      by auto
    have "shell_wall_body wps objs entry =
        objs[wi := WallObj (snd (takeDamage wall)),
             si := ShellObj (shell\<lparr>is_destroyed := True\<rparr>)]"
      using Pair si shell wi wall by (simp add: shell_wall_body_def)
    with Pair h si shell wall show ?thesis by blast
  next
    case False
    have "shell_wall_body wps objs entry = objs"
    proof (cases "si < length objs")
      case True
      show ?thesis
      proof (cases "objs ! si")
        case (ShellObj shell)
        show ?thesis
        proof (cases "getWallAt objs pos")
          case None
          with Pair ShellObj show ?thesis by (simp add: shell_wall_body_def)
        next
          case (Some wi)
          with False Pair True ShellObj have "\<not> (\<not> is_destroyed shell \<and> pos \<in> wps)"
            by (auto simp add: hits_def)
          with Pair ShellObj show ?thesis by (auto simp add: shell_wall_body_def)
        qed
      qed (simp_all add: Pair shell_wall_body_def)
    next
      case False
      with Pair show ?thesis by (simp add: shell_wall_body_def)
    qed
    with False show ?thesis by blast
  qed
qed

lemma shell_wall_body_ok:
  assumes "\<forall>w \<in> walls_of objs. wall_ok w"
  shows "\<forall>w \<in> walls_of (shell_wall_body wps objs entry). wall_ok w"
  using shell_wall_body_cases [of entry wps objs]
proof (elim disjE exE conjE)
  fix si pos wi wall shell
  assume wall: "wi < length objs" "objs ! wi = WallObj wall" "\<not> is_destroyed wall"
    and eq: "shell_wall_body wps objs entry =
        objs[wi := WallObj (snd (takeDamage wall)),
             si := ShellObj (shell\<lparr>is_destroyed := True\<rparr>)]"
  from wall have "wall \<in> walls_of objs"
    by (auto simp add: walls_of_def in_set_conv_nth)
  with assms wall have ok': "wall_ok (snd (takeDamage wall))"
    by (simp add: takeDamage_ok)
  have "walls_of (shell_wall_body wps objs entry)
      \<subseteq> walls_of (objs[wi := WallObj (snd (takeDamage wall))])"
    unfolding eq by (rule walls_of_update_other) simp
  also have "\<dots> \<subseteq> insert (snd (takeDamage wall)) (walls_of objs)"
    by (rule walls_of_update_wall)
  finally show ?thesis using assms ok' by auto
next
  assume "shell_wall_body wps objs entry = objs"
  with assms show ?thesis by simp
qed

lemma resolveShellWallCollisions_ok:
  "\<forall>w \<in> walls_of objs. wall_ok w \<Longrightarrow>
   \<forall>w \<in> walls_of (resolveShellWallCollisions objs sip wps). wall_ok w"
  unfolding resolveShellWallCollisions_def
proof (induction sip arbitrary: objs)
  case Nil
  then show ?case by simp
next
  case (Cons entry sip)
  from Cons.prems have "\<forall>w \<in> walls_of (shell_wall_body wps objs entry). wall_ok w"
    by (rule shell_wall_body_ok)
  from Cons.IH [OF this] show ?case by simp
qed

lemma reachable_walls_ok: "reachable_objects objs \<Longrightarrow> \<forall>w \<in> walls_of objs. wall_ok w"
proof (induction rule: reachable_objects.induct)
  case (populated objs)
  then show ?case by (auto simp add: wall_ok_def new_Wall_def)
next
  case (shells_hit objs sip wps)
  from shells_hit.IH show ?case by (rule resolveShellWallCollisions_ok)
next
  case (others objs objs')
  then show ?case by blast
qed

lemma shell_wall_body_hit:
  assumes ok: "\<forall>w \<in> walls_of objs. wall_ok w" and h: "hits wps objs (si, pos) wi"
  shows "wi < length objs \<and> is_wall (objs ! wi)
     \<and> is_wall (shell_wall_body wps objs (si, pos) ! wi)
     \<and> obj_health (shell_wall_body wps objs (si, pos) ! wi) = obj_health (objs ! wi) - 1
     \<and> 0 \<le> obj_health (shell_wall_body wps objs (si, pos) ! wi)
     \<and> (obj_is_destroyed (shell_wall_body wps objs (si, pos) ! wi)
          \<longleftrightarrow> obj_health (shell_wall_body wps objs (si, pos) ! wi) = 0)
     \<and> obj_is_destroyed (shell_wall_body wps objs (si, pos) ! si)"
  using shell_wall_body_cases [of "(si, pos)" wps objs]
proof (elim disjE exE conjE)
  fix si' pos' wi' wall shell
  assume e: "(si, pos) = (si', pos')" and h': "hits wps objs (si, pos) wi'"
    and b: "si' < length objs" "wi' < length objs"
    and wall: "objs ! wi' = WallObj wall" "\<not> is_destroyed wall"
    and shell: "objs ! si' = ShellObj shell"
    and eq: "shell_wall_body wps objs (si, pos) =
        objs[wi' := WallObj (snd (takeDamage wall)),
             si' := ShellObj (shell\<lparr>is_destroyed := True\<rparr>)]"
  from h h' have w: "wi' = wi" by (simp add: hits_def)
  from wall shell have ne: "si' \<noteq> wi'" by auto
  from wall b have "wall \<in> walls_of objs"
    by (auto simp add: walls_of_def in_set_conv_nth)
  with ok have wok: "wall_ok wall" by simp
  from takeDamage_ok [OF wok wall(2)] have td: "health (snd (takeDamage wall)) = health wall - 1"
      "wall_ok (snd (takeDamage wall))"
    by simp_all
  from e have "si = si'" "pos = pos'" by simp_all
  with w ne b wall td show ?thesis
    unfolding eq by (simp add: wall_ok_def)
next
  assume "\<forall>wi. \<not> hits wps objs (si, pos) wi"
  with h show ?thesis by simp
qed

text \<open>
  Claim C6. In every reachable state every wall has a health between 0 and 2 (it is made
  with 2) and is destroyed exactly when its health is 0; and when a projectile hits a
  wall in such a state, the wall's health goes down by exactly 1 and stays at or above
  0, the wall is destroyed exactly if its health has reached 0, and the projectile is
  destroyed whether or not the wall is.
\<close>

theorem wall_health_invariant:
  assumes "reachable_objects objs"
  shows "(\<forall>w \<in> walls_of objs.
            0 \<le> health w \<and> health w \<le> 2 \<and> (is_destroyed w \<longleftrightarrow> health w = 0))
         \<and> health (new_Wall p) = 2 \<and> \<not> is_destroyed (new_Wall p)
         \<and> (hits wps objs (si, pos) wi \<longrightarrow>
              is_wall (objs ! wi)
              \<and> is_wall (shell_wall_body wps objs (si, pos) ! wi)
              \<and> obj_health (shell_wall_body wps objs (si, pos) ! wi) = obj_health (objs ! wi) - 1
              \<and> 0 \<le> obj_health (shell_wall_body wps objs (si, pos) ! wi)
              \<and> (obj_is_destroyed (shell_wall_body wps objs (si, pos) ! wi)
                   \<longleftrightarrow> obj_health (shell_wall_body wps objs (si, pos) ! wi) = 0)
              \<and> obj_is_destroyed (shell_wall_body wps objs (si, pos) ! si))"
proof -
  from assms have ok: "\<forall>w \<in> walls_of objs. wall_ok w"
    by (rule reachable_walls_ok)
  then have "\<forall>w \<in> walls_of objs.
      0 \<le> health w \<and> health w \<le> 2 \<and> (is_destroyed w \<longleftrightarrow> health w = 0)"
    by (simp add: wall_ok_def)
  moreover have "health (new_Wall p) = 2 \<and> \<not> is_destroyed (new_Wall p)"
    by (simp add: new_Wall_def)
  moreover have "hits wps objs (si, pos) wi \<longrightarrow>
              is_wall (objs ! wi)
              \<and> is_wall (shell_wall_body wps objs (si, pos) ! wi)
              \<and> obj_health (shell_wall_body wps objs (si, pos) ! wi) = obj_health (objs ! wi) - 1
              \<and> 0 \<le> obj_health (shell_wall_body wps objs (si, pos) ! wi)
              \<and> (obj_is_destroyed (shell_wall_body wps objs (si, pos) ! wi)
                   \<longleftrightarrow> obj_health (shell_wall_body wps objs (si, pos) ! wi) = 0)
              \<and> obj_is_destroyed (shell_wall_body wps objs (si, pos) ! si)"
    using shell_wall_body_hit [OF ok] by blast
  ultimately show ?thesis by blast
qed

theorem wall_health_invariant_witness:
  "reachable_objects
     (resolveShellWallCollisions crossfire_objects [(1, Position 1 0)] {Position 1 0})
   \<and> resolveShellWallCollisions crossfire_objects [(1, Position 1 0)] {Position 1 0} =
       [WallObj ((new_Wall (Position 1 0))\<lparr>health := 1\<rparr>),
        ShellObj ((new_Shell (Position 0 0) RIGHT)\<lparr>is_destroyed := True\<rparr>),
        ShellObj (new_Shell (Position 2 0) LEFT)]
   \<and> hits {Position 1 0}
        (resolveShellWallCollisions crossfire_objects [(1, Position 1 0)] {Position 1 0})
        (2, Position 1 0) 0
   \<and> obj_health
        (shell_wall_body {Position 1 0}
           (resolveShellWallCollisions crossfire_objects [(1, Position 1 0)] {Position 1 0})
           (2, Position 1 0) ! 0) = 0
   \<and> obj_is_destroyed
        (shell_wall_body {Position 1 0}
           (resolveShellWallCollisions crossfire_objects [(1, Position 1 0)] {Position 1 0})
           (2, Position 1 0) ! 0)
   \<and> obj_is_destroyed
        (shell_wall_body {Position 1 0}
           (resolveShellWallCollisions crossfire_objects [(1, Position 1 0)] {Position 1 0})
           (2, Position 1 0) ! 2)"
proof -
  let ?objs = "resolveShellWallCollisions crossfire_objects [(1, Position 1 0)] {Position 1 0}"
  have "reachable_objects crossfire_objects"
    by (rule reachable_objects.populated) (auto simp add: walls_of_def crossfire_objects_def)
  then have r: "reachable_objects ?objs"
    by (rule reachable_objects.shells_hit)
  have e: "?objs =
       [WallObj ((new_Wall (Position 1 0))\<lparr>health := 1\<rparr>),
        ShellObj ((new_Shell (Position 0 0) RIGHT)\<lparr>is_destroyed := True\<rparr>),
        ShellObj (new_Shell (Position 2 0) LEFT)]"
    by (simp add: resolveShellWallCollisions_def crossfire_objects_def shell_wall_body_def
        getWallAt_def getObjectAt_def takeDamage_def new_Wall_def new_Shell_def)
  have h: "hits {Position 1 0} ?objs (2, Position 1 0) 0"
    unfolding e
    by (simp add: hits_def getWallAt_def getObjectAt_def new_Wall_def new_Shell_def)
  have v: "obj_health (?objs ! 0) = 1"
    unfolding e by simp
  from wall_health_invariant [OF r, of "Position 0 0" "{Position 1 0}" 2 "Position 1 0" 0] h v
  show ?thesis
    using r e by simp
qed

section \<open>Units in the sub-step loop (GameManager.cpp)\<close>

text \<open>
  \<^verbatim>\<open>LoggedAction\<close> and \<^verbatim>\<open>TankStepData\<close> (GameManager.h). The fields \<^verbatim>\<open>player_id\<close>,
  \<^verbatim>\<open>tank_id\<close> and \<^verbatim>\<open>action\<close> of \<^verbatim>\<open>LoggedAction\<close> carry the prefix \<open>la_\<close> here. Both
  structs hold a shared pointer to the unit; \<^verbatim>\<open>TankStepData\<close> holds the unit itself
  here (every unit has exactly one entry in \<^verbatim>\<open>tank_data\<close>, made by \<^verbatim>\<open>prepareStep\<close>), and
  the copy of the pointer in \<^verbatim>\<open>LoggedAction\<close> is left out.
\<close>

record LoggedAction =
  la_player_id :: int
  la_tank_id :: int
  la_action :: ActionRequest
  is_bad :: bool
  was_tank_destroyed :: bool
  killed_this_step :: bool

record TankStepData =
  tank :: Tank
  action :: ActionRequest
  outcome :: ActionOutcome
  intended_position :: Position
  logged_action :: LoggedAction
  blocked_this_sub_step :: bool

text \<open>
  \<^verbatim>\<open>tank_data\<close> is an unordered map from unit ids to entries; it is the list of its
  pairs, in the order in which the map is traversed.
\<close>

type_synonym tank_data = "(int \<times> TankStepData) list"

text \<open>The loop at the head of every sub-step that clears the blocked flags.\<close>

definition reset_blocked :: "tank_data \<Rightarrow> tank_data" where
  "reset_blocked td = map (\<lambda>(tid, d). (tid, d\<lparr>blocked_this_sub_step := False\<rparr>)) td"

text \<open>\<^verbatim>\<open>calculateIntendedTankPositionsSubStep\<close>: its two loops.\<close>

definition intended_reset :: "TankStepData \<Rightarrow> TankStepData" where
  "intended_reset d = d\<lparr>intended_position := position (tank d)\<rparr>"

definition intended_move :: "int \<Rightarrow> int \<Rightarrow> int \<Rightarrow> TankStepData \<Rightarrow> TankStepData" where
  "intended_move max_speed w h d =
     (if move_intent_this_step (tank d) then
        let (pos, t') = updateMovementProgress (tank d) max_speed w h
        in d\<lparr>intended_position := pos, tank := t'\<rparr>
      else d)"

definition calculateIntendedTankPositionsSubStep ::
  "int \<Rightarrow> int \<Rightarrow> tank_data \<Rightarrow> int \<Rightarrow> tank_data" where
  "calculateIntendedTankPositionsSubStep w h td max_speed =
     map (\<lambda>(tid, d). (tid, intended_move max_speed w h d))
       (map (\<lambda>(tid, d). (tid, intended_reset d)) td)"

text \<open>\<^verbatim>\<open>resolveTankWallCollisions\<close>.\<close>

definition tank_wall_body :: "Position set \<Rightarrow> TankStepData \<Rightarrow> TankStepData" where
  "tank_wall_body wall_positions d =
     (if move_intent_this_step (tank d) \<and> intended_position d \<noteq> position (tank d)
         \<and> intended_position d \<in> wall_positions
      then d\<lparr>blocked_this_sub_step := True,
             intended_position := position (tank d),
             tank := (tank d)\<lparr>Tank.movement_progress := 0, move_intent_this_step := False\<rparr>\<rparr>
      else d)"

definition resolveTankWallCollisions :: "tank_data \<Rightarrow> Position set \<Rightarrow> tank_data" where
  "resolveTankWallCollisions td wall_positions =
     map (\<lambda>(tid, d). (tid, tank_wall_body wall_positions d)) td"

text \<open>
  The three handlers that can destroy a unit (\<^verbatim>\<open>resolveShellTankCollisions\<close>,
  \<^verbatim>\<open>resolveTankMineCollisions\<close>, \<^verbatim>\<open>resolveTankTankCollisions\<close>) write to a unit and its
  entry in one way only: they set \<^verbatim>\<open>is_destroyed\<close>, \<^verbatim>\<open>was_tank_destroyed\<close> and
  \<^verbatim>\<open>killed_this_step\<close> of a unit that is not yet destroyed. Which units they pick
  depends on the projectiles, traps and other units; here it is the predicate \<open>killed\<close>
  on unit ids.
\<close>

definition mark_killed :: "TankStepData \<Rightarrow> TankStepData" where
  "mark_killed d =
     (if \<not> is_destroyed (tank d) then
        d\<lparr>tank := (tank d)\<lparr>is_destroyed := True\<rparr>,
          logged_action := (logged_action d)\<lparr>was_tank_destroyed := True,
                                            killed_this_step := True\<rparr>\<rparr>
      else d)"

definition destroying_collisions :: "(int \<Rightarrow> bool) \<Rightarrow> tank_data \<Rightarrow> tank_data" where
  "destroying_collisions killed td =
     map (\<lambda>(tid, d). (tid, if killed tid then mark_killed d else d)) td"

text \<open>\<^verbatim>\<open>updateObjectPositionsSubStep\<close>, the loop over the units.\<close>

definition update_position_body :: "int \<Rightarrow> TankStepData \<Rightarrow> TankStepData" where
  "update_position_body tid d =
     (if \<not> is_destroyed (tank d) \<and> \<not> blocked_this_sub_step d then
        let d1 = (if position (tank d) \<noteq> intended_position d then
                    d\<lparr>logged_action :=
                        \<lparr> la_player_id = player_id (tank d), la_tank_id = tid,
                          la_action = (if multiplier (tank d) > 0 then MoveForward
                                       else MoveBackward),
                          is_bad = False, was_tank_destroyed = is_destroyed (tank d),
                          killed_this_step = False \<rparr>\<rparr>
                  else d)
        in d1\<lparr>tank := (tank d1)\<lparr>position := intended_position d1\<rparr>\<rparr>
      else if blocked_this_sub_step d then
        (if la_player_id (logged_action d) = 0 \<or> la_action (logged_action d) \<noteq> action d then
           d\<lparr>logged_action :=
               \<lparr> la_player_id = player_id (tank d), la_tank_id = tid, la_action = action d,
                 is_bad = True, was_tank_destroyed = is_destroyed (tank d),
                 killed_this_step = False \<rparr>\<rparr>
         else d)
      else d)"

definition updateTankPositionsSubStep :: "tank_data \<Rightarrow> tank_data" where
  "updateTankPositionsSubStep td = map (\<lambda>(tid, d). (tid, update_position_body tid d)) td"

text \<open>
  One pass of the loop of \<^verbatim>\<open>runMovementAndCollisionSubSteps\<close>, as far as the units
  are concerned. The environment of a sub-step is the set of wall positions collected
  by \<^verbatim>\<open>resolveCollisionsSubStep\<close> and the units destroyed in it.
\<close>

definition tank_sub_step ::
  "int \<Rightarrow> int \<Rightarrow> int \<Rightarrow> tank_data \<Rightarrow> Position set \<times> (int \<Rightarrow> bool) \<Rightarrow> tank_data" where
  "tank_sub_step w h max_speed td env =
     updateTankPositionsSubStep
       (destroying_collisions (snd env)
          (resolveTankWallCollisions
             (calculateIntendedTankPositionsSubStep w h (reset_blocked td) max_speed)
             (fst env)))"

definition tank_sub_steps ::
  "int \<Rightarrow> int \<Rightarrow> int \<Rightarrow> tank_data \<Rightarrow> (Position set \<times> (int \<Rightarrow> bool)) list \<Rightarrow> tank_data" where
  "tank_sub_steps w h max_speed td envs = foldl (tank_sub_step w h max_speed) td envs"

text \<open>The same pass for a single entry.\<close>

definition entry_sub_step ::
  "int \<Rightarrow> int \<Rightarrow> int \<Rightarrow> Position set \<times> (int \<Rightarrow> bool) \<Rightarrow> int \<times> TankStepData \<Rightarrow> int \<times> TankStepData" where
  "entry_sub_step w h max_speed env e =
     (fst e,
      update_position_body (fst e)
        ((if snd env (fst e) then mark_killed else id)
           (tank_wall_body (fst env)
              (intended_move max_speed w h
                 (intended_reset ((snd e)\<lparr>blocked_this_sub_step := False\<rparr>))))))"

lemma tank_sub_step_map:
  "tank_sub_step w h max_speed td env = map (entry_sub_step w h max_speed env) td"
  by (auto simp add: tank_sub_step_def updateTankPositionsSubStep_def destroying_collisions_def
      resolveTankWallCollisions_def calculateIntendedTankPositionsSubStep_def reset_blocked_def
      entry_sub_step_def split_beta)

lemma tank_sub_steps_length [simp]:
  "length (tank_sub_steps w h max_speed td envs) = length td"
  unfolding tank_sub_steps_def
  by (induction envs arbitrary: td) (simp_all add: tank_sub_step_map)

lemma mark_killed_keeps:
  "position (tank (mark_killed d)) = position (tank d)
   \<and> move_intent_this_step (tank (mark_killed d)) = move_intent_this_step (tank d)
   \<and> Tank.movement_progress (tank (mark_killed d)) = Tank.movement_progress (tank d)
   \<and> intended_position (mark_killed d) = intended_position d
   \<and> blocked_this_sub_step (mark_killed d) = blocked_this_sub_step d"
  by (simp add: mark_killed_def)

lemma entry_sub_step_idle:
  assumes "\<not> move_intent_this_step (tank (snd e))"
  shows "position (tank (snd (entry_sub_step w h ms env e))) = position (tank (snd e))
     \<and> \<not> move_intent_this_step (tank (snd (entry_sub_step w h ms env e)))
     \<and> Tank.movement_progress (tank (snd (entry_sub_step w h ms env e)))
         = Tank.movement_progress (tank (snd e))
     \<and> fst (entry_sub_step w h ms env e) = fst e"
  using assms
  by (simp add: entry_sub_step_def intended_move_def intended_reset_def tank_wall_body_def
      update_position_body_def mark_killed_def Let_def)

lemma tank_sub_steps_idle:
  assumes "i < length td" and "\<not> move_intent_this_step (tank (snd (td ! i)))"
  shows "position (tank (snd (tank_sub_steps w h ms td envs ! i))) = position (tank (snd (td ! i)))
     \<and> \<not> move_intent_this_step (tank (snd (tank_sub_steps w h ms td envs ! i)))
     \<and> Tank.movement_progress (tank (snd (tank_sub_steps w h ms td envs ! i)))
         = Tank.movement_progress (tank (snd (td ! i)))"
  using assms
proof (induction envs arbitrary: td)
  case Nil
  then show ?case by (simp add: tank_sub_steps_def)
next
  case (Cons env envs)
  let ?td = "tank_sub_step w h ms td env"
  have len: "i < length ?td"
    using Cons.prems by (simp add: tank_sub_step_map)
  have nth: "?td ! i = entry_sub_step w h ms env (td ! i)"
    using Cons.prems by (simp add: tank_sub_step_map)
  from entry_sub_step_idle [OF Cons.prems(2), of w h ms env]
  have idle: "position (tank (snd (?td ! i))) = position (tank (snd (td ! i)))"
      "\<not> move_intent_this_step (tank (snd (?td ! i)))"
      "Tank.movement_progress (tank (snd (?td ! i))) = Tank.movement_progress (tank (snd (td ! i)))"
    by (simp_all add: nth)
  from Cons.IH [OF len idle(2)] idle show ?case
    by (simp add: tank_sub_steps_def)
qed

lemma entry_sub_step_idle_fields:
  assumes "\<not> move_intent_this_step (tank (snd e))"
  shows "tank (snd (entry_sub_step w h ms env e))
     = (tank (snd e))\<lparr>is_destroyed := is_destroyed (tank (snd (entry_sub_step w h ms env e)))\<rparr>"
  using assms
  by (simp add: entry_sub_step_def intended_move_def intended_reset_def tank_wall_body_def
      update_position_body_def mark_killed_def Let_def)

lemma tank_sub_steps_idle_fields:
  assumes "i < length td" and "\<not> move_intent_this_step (tank (snd (td ! i)))"
  shows "tank (snd (tank_sub_steps w h ms td envs ! i))
     = (tank (snd (td ! i)))\<lparr>is_destroyed :=
          is_destroyed (tank (snd (tank_sub_steps w h ms td envs ! i)))\<rparr>"
  using assms
proof (induction envs arbitrary: td)
  case Nil
  then show ?case by (simp add: tank_sub_steps_def)
next
  case (Cons env envs)
  let ?td = "tank_sub_step w h ms td env"
  have len: "i < length ?td"
    using Cons.prems by (simp add: tank_sub_step_map)
  have nth: "?td ! i = entry_sub_step w h ms env (td ! i)"
    using Cons.prems by (simp add: tank_sub_step_map)
  from entry_sub_step_idle [OF Cons.prems(2), of w h ms env]
  have idle: "\<not> move_intent_this_step (tank (snd (?td ! i)))"
    by (simp add: nth)
  have one: "tank (snd (?td ! i))
      = (tank (snd (td ! i)))\<lparr>is_destroyed := is_destroyed (tank (snd (?td ! i)))\<rparr>"
    unfolding nth using Cons.prems(2) by (rule entry_sub_step_idle_fields)
  have "tank (snd (tank_sub_steps w h ms ?td envs ! i))
      = (tank (snd (?td ! i)))\<lparr>is_destroyed :=
          is_destroyed (tank (snd (tank_sub_steps w h ms ?td envs ! i)))\<rparr>"
    using len idle by (rule Cons.IH)
  also have "\<dots> = (tank (snd (td ! i)))\<lparr>is_destroyed :=
          is_destroyed (tank (snd (tank_sub_steps w h ms ?td envs ! i)))\<rparr>"
    by (subst one) simp
  finally show ?case by (simp add: tank_sub_steps_def)
qed

text \<open>A unit of player 1 at the left end of a 3 by 1 board, moving right into a wall.\<close>

definition advancing_data :: tank_data where
  "advancing_data =
     [(7, \<lparr> tank = (new_Tank 7 16 1 (Position 0 0) 1 RIGHT)\<lparr>move_intent_this_step := True\<rparr>,
            action = MoveForward, outcome = MOVE_PENDING, intended_position = Position 0 0,
            logged_action = \<lparr> la_player_id = 1, la_tank_id = 7, la_action = MoveForward,
                              is_bad = False, was_tank_destroyed = False,
                              killed_this_step = False \<rparr>,
            blocked_this_sub_step = False \<rparr>)]"

text \<open>
  Claim C5. Take a unit whose intended position for a sub-step, as
  \<^verbatim>\<open>calculateIntendedTankPositionsSubStep\<close> computes it, is a move onto the position of a
  live wall. Then the unit is blocked: its intended position is set back to its
  position, the position update leaves its position as it was, its progress is 0 and its
  move intent is off. Every other field of the unit is as before the block: after the
  block the unit is the unit before the sub-step with progress 0 and the move intent
  off, and nothing else changed (cannon direction, ammo, cooldown, destroyed flag,
  movement state, multiplier, ids, symbol and position among them); the position update
  of the sub-step changes no field of the unit either, and only a handler that destroys
  the unit in the sub-step sets its destroyed flag. In every later sub-step of the tick,
  whatever happens around it, its position stays the same, its move intent stays off and
  its progress stays 0, and no field other than the destroyed flag changes.
\<close>

theorem blocked_unit_does_not_move:
  fixes td :: tank_data and walls :: "Position set" and killed :: "int \<Rightarrow> bool"
    and w h max_speed :: int and i :: nat
  defines "td1 \<equiv> calculateIntendedTankPositionsSubStep w h (reset_blocked td) max_speed"
  defines "td2 \<equiv> resolveTankWallCollisions td1 walls"
  defines "td3 \<equiv> tank_sub_step w h max_speed td (walls, killed)"
  assumes i: "i < length td"
    and lands: "intended_position (snd (td1 ! i)) \<in> walls"
    and moves: "intended_position (snd (td1 ! i)) \<noteq> position (tank (snd (td ! i)))"
  shows "blocked_this_sub_step (snd (td2 ! i))
     \<and> intended_position (snd (td2 ! i)) = position (tank (snd (td ! i)))
     \<and> Tank.movement_progress (tank (snd (td2 ! i))) = 0
     \<and> \<not> move_intent_this_step (tank (snd (td2 ! i)))
     \<and> cannonDirection (tank (snd (td2 ! i))) = cannonDirection (tank (snd (td ! i)))
     \<and> shells_remaining (tank (snd (td2 ! i))) = shells_remaining (tank (snd (td ! i)))
     \<and> cooldown_remaining (tank (snd (td2 ! i))) = cooldown_remaining (tank (snd (td ! i)))
     \<and> is_destroyed (tank (snd (td2 ! i))) = is_destroyed (tank (snd (td ! i)))
     \<and> tank (snd (td2 ! i))
         = (tank (snd (td ! i)))\<lparr>Tank.movement_progress := 0, move_intent_this_step := False\<rparr>
     \<and> position (tank (snd (td3 ! i))) = position (tank (snd (td ! i)))
     \<and> tank (snd (td3 ! i))
         = (tank (snd (td ! i)))\<lparr>Tank.movement_progress := 0, move_intent_this_step := False,
              is_destroyed := is_destroyed (tank (snd (td ! i))) \<or> killed (fst (td ! i))\<rparr>
     \<and> (\<forall>envs.
          position (tank (snd (tank_sub_steps w h max_speed td3 envs ! i)))
            = position (tank (snd (td ! i)))
          \<and> \<not> move_intent_this_step (tank (snd (tank_sub_steps w h max_speed td3 envs ! i)))
          \<and> Tank.movement_progress (tank (snd (tank_sub_steps w h max_speed td3 envs ! i))) = 0
          \<and> tank (snd (tank_sub_steps w h max_speed td3 envs ! i))
              = (tank (snd (td ! i)))\<lparr>Tank.movement_progress := 0,
                   move_intent_this_step := False,
                   is_destroyed :=
                     is_destroyed (tank (snd (tank_sub_steps w h max_speed td3 envs ! i)))\<rparr>)"
proof -
  obtain tid d where e: "td ! i = (tid, d)" by (cases "td ! i")
  define d0 where "d0 = intended_reset (d\<lparr>blocked_this_sub_step := False\<rparr>)"
  define d1 where "d1 = intended_move max_speed w h d0"
  define d2 where "d2 = tank_wall_body walls d1"
  define T where "T = (tank d)\<lparr>Tank.movement_progress := 0, move_intent_this_step := False\<rparr>"
  have n1: "td1 ! i = (tid, d1)"
    using i e by (simp add: td1_def calculateIntendedTankPositionsSubStep_def
        reset_blocked_def d1_def d0_def)
  have n2: "td2 ! i = (tid, d2)"
    using i n1 by (simp add: td2_def resolveTankWallCollisions_def d2_def td1_def
        calculateIntendedTankPositionsSubStep_def reset_blocked_def)
  have n3: "td3 ! i = (tid, update_position_body tid ((if killed tid then mark_killed else id) d2))"
    using i e by (simp add: td3_def tank_sub_step_map entry_sub_step_def d2_def d1_def d0_def)
  have t0: "tank d0 = tank d" "intended_position d0 = position (tank d)"
    by (simp_all add: d0_def intended_reset_def)
  have intent: "move_intent_this_step (tank d)"
  proof (rule ccontr)
    assume "\<not> move_intent_this_step (tank d)"
    with t0 have "intended_position d1 = position (tank d)"
      by (simp add: d1_def intended_move_def)
    with moves n1 e show False by simp
  qed
  have t1: "position (tank d1) = position (tank d)" "move_intent_this_step (tank d1)"
      "cannonDirection (tank d1) = cannonDirection (tank d)"
      "shells_remaining (tank d1) = shells_remaining (tank d)"
      "cooldown_remaining (tank d1) = cooldown_remaining (tank d)"
      "is_destroyed (tank d1) = is_destroyed (tank d)"
    using intent t0
    by (simp_all add: d1_def intended_move_def updateMovementProgress_def Let_def split_beta)
  have cond: "intended_position d1 \<noteq> position (tank d1)" "intended_position d1 \<in> walls"
    using moves lands n1 e t1 by simp_all
  have t2: "blocked_this_sub_step d2" "intended_position d2 = position (tank d)"
      "Tank.movement_progress (tank d2) = 0" "\<not> move_intent_this_step (tank d2)"
      "cannonDirection (tank d2) = cannonDirection (tank d)"
      "shells_remaining (tank d2) = shells_remaining (tank d)"
      "cooldown_remaining (tank d2) = cooldown_remaining (tank d)"
      "is_destroyed (tank d2) = is_destroyed (tank d)"
      "position (tank d2) = position (tank d)"
    using cond t1 by (simp_all add: d2_def tank_wall_body_def)
  define p where "p = Tank.movement_progress (tank d1)"
  have d1eq: "tank d1 = (tank d)\<lparr>Tank.movement_progress := p\<rparr>"
    unfolding p_def using intent t0
    by (simp add: d1_def intended_move_def updateMovementProgress_def Let_def split_beta)
  have "(tank d1)\<lparr>Tank.movement_progress := 0, move_intent_this_step := False\<rparr> = T"
    unfolding d1eq T_def by simp
  then have teq: "tank d2 = T"
    using cond t1 by (simp add: d2_def tank_wall_body_def)
  have teq3: "tank (snd (td3 ! i)) = T\<lparr>is_destroyed := is_destroyed (tank d) \<or> killed tid\<rparr>"
    using t2 teq by (simp add: n3 update_position_body_def mark_killed_def Let_def T_def)
  have t3: "position (tank (snd (td3 ! i))) = position (tank d)"
      "\<not> move_intent_this_step (tank (snd (td3 ! i)))"
      "Tank.movement_progress (tank (snd (td3 ! i))) = 0"
    using t2 by (simp_all add: n3 update_position_body_def mark_killed_def Let_def)
  have len3: "i < length td3"
    using i by (simp add: td3_def tank_sub_step_map)
  have c1: "blocked_this_sub_step (snd (td2 ! i))"
    "intended_position (snd (td2 ! i)) = position (tank (snd (td ! i)))"
    "Tank.movement_progress (tank (snd (td2 ! i))) = 0"
    "\<not> move_intent_this_step (tank (snd (td2 ! i)))"
    "cannonDirection (tank (snd (td2 ! i))) = cannonDirection (tank (snd (td ! i)))"
    "shells_remaining (tank (snd (td2 ! i))) = shells_remaining (tank (snd (td ! i)))"
    "cooldown_remaining (tank (snd (td2 ! i))) = cooldown_remaining (tank (snd (td ! i)))"
    "is_destroyed (tank (snd (td2 ! i))) = is_destroyed (tank (snd (td ! i)))"
    using t2 by (simp_all add: n2 e)
  have c2: "tank (snd (td2 ! i))
      = (tank (snd (td ! i)))\<lparr>Tank.movement_progress := 0, move_intent_this_step := False\<rparr>"
    using teq by (simp add: n2 e T_def)
  have c3: "position (tank (snd (td3 ! i))) = position (tank (snd (td ! i)))"
    using t3(1) by (simp add: e)
  have c4: "tank (snd (td3 ! i))
      = (tank (snd (td ! i)))\<lparr>Tank.movement_progress := 0, move_intent_this_step := False,
           is_destroyed := is_destroyed (tank (snd (td ! i))) \<or> killed (fst (td ! i))\<rparr>"
    using teq3 by (simp add: e T_def)
  have c5: "\<forall>envs.
          position (tank (snd (tank_sub_steps w h max_speed td3 envs ! i)))
            = position (tank (snd (td ! i)))
          \<and> \<not> move_intent_this_step (tank (snd (tank_sub_steps w h max_speed td3 envs ! i)))
          \<and> Tank.movement_progress (tank (snd (tank_sub_steps w h max_speed td3 envs ! i))) = 0
          \<and> tank (snd (tank_sub_steps w h max_speed td3 envs ! i))
              = (tank (snd (td ! i)))\<lparr>Tank.movement_progress := 0,
                   move_intent_this_step := False,
                   is_destroyed :=
                     is_destroyed (tank (snd (tank_sub_steps w h max_speed td3 envs ! i)))\<rparr>"
  proof (intro allI conjI)
    fix envs
    let ?X = "tank (snd (tank_sub_steps w h max_speed td3 envs ! i))"
    note idle = tank_sub_steps_idle [OF len3 t3(2), of w h max_speed envs]
    from idle t3(1) show "position ?X = position (tank (snd (td ! i)))"
      by (simp add: e)
    from idle show "\<not> move_intent_this_step ?X" by simp
    from idle t3(3) show "Tank.movement_progress ?X = 0" by simp
    have "?X = (tank (snd (td3 ! i)))\<lparr>is_destroyed := is_destroyed ?X\<rparr>"
      using len3 t3(2) by (rule tank_sub_steps_idle_fields)
    also have "\<dots> = (tank (snd (td ! i)))\<lparr>Tank.movement_progress := 0,
        move_intent_this_step := False, is_destroyed := is_destroyed ?X\<rparr>"
      unfolding c4 by simp
    finally show "?X = (tank (snd (td ! i)))\<lparr>Tank.movement_progress := 0,
        move_intent_this_step := False, is_destroyed := is_destroyed ?X\<rparr>" .
  qed
  show ?thesis
    by (intro conjI) (fact c1 c2 c3 c4 c5)+
qed

theorem blocked_unit_does_not_move_witness:
  "intended_position
     (snd (calculateIntendedTankPositionsSubStep 3 1 (reset_blocked advancing_data) 1 ! 0))
     = Position 1 0
   \<and> position (tank (snd (advancing_data ! 0))) = Position 0 0
   \<and> blocked_this_sub_step
       (snd (resolveTankWallCollisions
               (calculateIntendedTankPositionsSubStep 3 1 (reset_blocked advancing_data) 1)
               {Position 1 0} ! 0))
   \<and> tank (snd (resolveTankWallCollisions
               (calculateIntendedTankPositionsSubStep 3 1 (reset_blocked advancing_data) 1)
               {Position 1 0} ! 0))
     = new_Tank 7 16 1 (Position 0 0) 1 RIGHT
   \<and> position
       (tank (snd (tank_sub_step 3 1 1 advancing_data ({Position 1 0}, \<lambda>tid. False) ! 0)))
     = Position 0 0"
proof -
  have a: "intended_position
     (snd (calculateIntendedTankPositionsSubStep 3 1 (reset_blocked advancing_data) 1 ! 0))
     = Position 1 0"
    by (simp add: calculateIntendedTankPositionsSubStep_def reset_blocked_def advancing_data_def
        intended_reset_def intended_move_def updateMovementProgress_def new_Tank_def
        Tank_speed_def signed_modulo_int_def)
  have b: "position (tank (snd (advancing_data ! 0))) = Position 0 0"
    by (simp add: advancing_data_def new_Tank_def)
  have c: "(0::nat) < length advancing_data"
    by (simp add: advancing_data_def)
  have l: "intended_position
     (snd (calculateIntendedTankPositionsSubStep 3 1 (reset_blocked advancing_data) 1 ! 0))
     \<in> {Position 1 0}"
    using a by simp
  have m: "intended_position
     (snd (calculateIntendedTankPositionsSubStep 3 1 (reset_blocked advancing_data) 1 ! 0))
     \<noteq> position (tank (snd (advancing_data ! 0)))"
    using a b by simp
  have t: "(tank (snd (advancing_data ! 0)))\<lparr>Tank.movement_progress := 0,
        move_intent_this_step := False\<rparr> = new_Tank 7 16 1 (Position 0 0) 1 RIGHT"
    by (simp add: advancing_data_def new_Tank_def)
  from blocked_unit_does_not_move [OF c l m, of "\<lambda>tid. False"]
  have r: "blocked_this_sub_step
       (snd (resolveTankWallCollisions
               (calculateIntendedTankPositionsSubStep 3 1 (reset_blocked advancing_data) 1)
               {Position 1 0} ! 0))"
    "tank (snd (resolveTankWallCollisions
               (calculateIntendedTankPositionsSubStep 3 1 (reset_blocked advancing_data) 1)
               {Position 1 0} ! 0))
     = (tank (snd (advancing_data ! 0)))\<lparr>Tank.movement_progress := 0,
          move_intent_this_step := False\<rparr>"
    "position
       (tank (snd (tank_sub_step 3 1 1 advancing_data ({Position 1 0}, \<lambda>tid. False) ! 0)))
     = position (tank (snd (advancing_data ! 0)))"
    by blast+
  show ?thesis
    unfolding r t b using a r(1) by simp
qed

section \<open>Projectiles against projectiles (GameManager::resolveShellShellCollisions)\<close>

text \<open>A pointer to a shell that is not destroyed.\<close>

definition live_shell :: "Obj list \<Rightarrow> nat \<Rightarrow> bool" where
  "live_shell objs i \<longleftrightarrow> i < length objs \<and> is_shell (objs ! i) \<and> \<not> obj_is_destroyed (objs ! i)"

text \<open>\<^verbatim>\<open>GameState::getShells\<close>: the live shells, in the order of the vector.\<close>

definition getShells :: "Obj list \<Rightarrow> nat list" where
  "getShells objs = filter (live_shell objs) [0..<length objs]"

text \<open>The assignment \<^verbatim>\<open>shell->is_destroyed = true\<close>.\<close>

definition destroy_shell :: "Obj list \<Rightarrow> nat \<Rightarrow> Obj list" where
  "destroy_shell objs i =
     (if i < length objs then
        (case objs ! i of
           ShellObj s \<Rightarrow> objs[i := ShellObj (s\<lparr>is_destroyed := True\<rparr>)]
         | _ \<Rightarrow> objs)
      else objs)"

definition shell_direction :: "Obj list \<Rightarrow> nat \<Rightarrow> Direction" where
  "shell_direction objs i = (case objs ! i of ShellObj s \<Rightarrow> direction s | _ \<Rightarrow> UP)"

text \<open>\<^verbatim>\<open>std::abs(static_cast<int>(d1) - static_cast<int>(d2)) == 4\<close>.\<close>

definition opposite_directions :: "Direction \<Rightarrow> Direction \<Rightarrow> bool" where
  "opposite_directions d1 d2 \<longleftrightarrow> \<bar>dir_index d1 - dir_index d2\<bar> = 4"

text \<open>
  The first loop fills the map \<^verbatim>\<open>shells_at_intended_pos\<close> from intended positions to
  the live shells that intend them. The map is a function to lists here; its keys are
  the intended positions of the live shells.
\<close>

definition shells_at_intended_pos :: "Obj list \<Rightarrow> (nat \<times> Position) list \<Rightarrow> Position \<Rightarrow> nat list" where
  "shells_at_intended_pos objs shells_intended_positions =
     foldl (\<lambda>m (shell, pos). if live_shell objs shell then m(pos := m pos @ [shell]) else m)
       (\<lambda>pos. []) shells_intended_positions"

definition intended_keys :: "Obj list \<Rightarrow> (nat \<times> Position) list \<Rightarrow> Position list" where
  "intended_keys objs shells_intended_positions =
     remdups (map snd (filter (\<lambda>(shell, pos). live_shell objs shell) shells_intended_positions))"

text \<open>
  The second loop destroys every group of more than one shell. The source traverses
  the unordered map in an order of its own; the loop only sets flags, so the order
  (here that of \<open>intended_keys\<close>) does not matter.
\<close>

definition destroy_groups :: "Obj list \<Rightarrow> (nat \<times> Position) list \<Rightarrow> Obj list" where
  "destroy_groups objs shells_intended_positions =
     foldl (\<lambda>ob pos.
              let shells = shells_at_intended_pos objs shells_intended_positions pos
              in if length shells > 1 then foldl destroy_shell ob shells else ob)
       objs (intended_keys objs shells_intended_positions)"

text \<open>
  The head-on check: for every live shell of the state, every entry of
  \<^verbatim>\<open>shells_intended_positions\<close> is examined.
\<close>

definition headon_inner :: "nat \<Rightarrow> Obj list \<Rightarrow> nat \<times> Position \<Rightarrow> Obj list" where
  "headon_inner shell ob entry =
     (case entry of (otherShell, intendedPos) \<Rightarrow>
        if live_shell ob otherShell \<and> intendedPos = obj_position (ob ! shell)
           \<and> shell \<noteq> otherShell
           \<and> opposite_directions (shell_direction ob shell) (shell_direction ob otherShell)
        then destroy_shell (destroy_shell ob shell) otherShell
        else ob)"

definition headon_outer :: "(nat \<times> Position) list \<Rightarrow> Obj list \<Rightarrow> nat \<Rightarrow> Obj list" where
  "headon_outer shells_intended_positions ob shell =
     (if \<not> obj_is_destroyed (ob ! shell) then
        foldl (headon_inner shell) ob shells_intended_positions
      else ob)"

definition resolveShellShellCollisions :: "Obj list \<Rightarrow> (nat \<times> Position) list \<Rightarrow> Obj list" where
  "resolveShellShellCollisions objs shells_intended_positions =
     (let ob1 = destroy_groups objs shells_intended_positions
      in foldl (headon_outer shells_intended_positions) ob1 (getShells ob1))"

text \<open>
  Three projectiles: the first flies left from (2,0), the second flies right from (1,0),
  the third flies up from (1,1). The first and the third intend the cell (1,0).
\<close>

definition three_shells :: "Obj list" where
  "three_shells =
     [ShellObj (new_Shell (Position 2 0) LEFT),
      ShellObj (new_Shell (Position 1 0) RIGHT),
      ShellObj (new_Shell (Position 1 1) UP)]"

definition three_intended :: "(nat \<times> Position) list" where
  "three_intended = [(0, Position 1 0), (1, Position 2 0), (2, Position 1 0)]"


text \<open>
  A third projectile disturbs a pair when it collides with one of the two: it shares an
  intended cell with it, or it is head-on with it.
\<close>

definition undisturbed ::
  "Obj list \<Rightarrow> (nat \<times> Position) list \<Rightarrow> nat \<Rightarrow> Position \<Rightarrow> nat \<Rightarrow> Position \<Rightarrow> bool" where
  "undisturbed objs sip a pa b pb \<longleftrightarrow>
     (\<forall>(c, pc) \<in> set sip. live_shell objs c \<and> c \<noteq> a \<and> c \<noteq> b \<longrightarrow>
        pc \<noteq> pa \<and> pc \<noteq> pb
        \<and> \<not> (pc = obj_position (objs ! a)
             \<and> opposite_directions (shell_direction objs a) (shell_direction objs c))
        \<and> \<not> (pc = obj_position (objs ! b)
             \<and> opposite_directions (shell_direction objs b) (shell_direction objs c)))
     \<and> (\<forall>c. live_shell objs c \<and> c \<noteq> a \<and> c \<noteq> b \<longrightarrow>
        \<not> (pa = obj_position (objs ! c)
             \<and> opposite_directions (shell_direction objs c) (shell_direction objs a))
        \<and> \<not> (pb = obj_position (objs ! c)
             \<and> opposite_directions (shell_direction objs c) (shell_direction objs b)))"

subsection \<open>Destroying only sets flags\<close>

fun mark_obj :: "Obj \<Rightarrow> Obj" where
  "mark_obj (ShellObj s) = ShellObj (s\<lparr>is_destroyed := True\<rparr>)"
| "mark_obj obj = obj"

definition marks :: "Obj list \<Rightarrow> Obj list \<Rightarrow> bool" where
  "marks objs ob \<longleftrightarrow>
     length ob = length objs
     \<and> (\<forall>i < length objs. ob ! i = objs ! i \<or> ob ! i = mark_obj (objs ! i))"

lemma mark_obj_idem: "mark_obj (mark_obj obj) = mark_obj obj"
  by (cases obj) simp_all

lemma mark_obj_props:
  "obj_position (mark_obj obj) = obj_position obj"
  "is_shell (mark_obj obj) = is_shell obj"
  "obj_is_destroyed obj \<Longrightarrow> obj_is_destroyed (mark_obj obj)"
  "obj_is_destroyed (mark_obj obj) \<longleftrightarrow> obj_is_destroyed obj \<or> is_shell obj"
  by (cases obj; simp)+

lemma mark_obj_other: "\<not> is_shell obj \<Longrightarrow> mark_obj obj = obj"
  by (cases obj) simp_all

lemma destroy_shell_eq:
  "destroy_shell objs i = (if i < length objs then objs[i := mark_obj (objs ! i)] else objs)"
proof (cases "is_shell (objs ! i)")
  case True
  then obtain s where "objs ! i = ShellObj s" by (cases "objs ! i") simp_all
  then show ?thesis by (simp add: destroy_shell_def)
next
  case False
  then have "destroy_shell objs i = objs"
    by (cases "objs ! i") (simp_all add: destroy_shell_def)
  moreover from False have "mark_obj (objs ! i) = objs ! i"
    by (rule mark_obj_other)
  then have "objs[i := mark_obj (objs ! i)] = objs"
    by (simp only: list_update_id)
  ultimately show ?thesis by simp
qed

lemma marks_refl: "marks objs objs"
  by (simp add: marks_def)

lemma marks_trans:
  assumes "marks a b" and "marks b c"
  shows "marks a c"
  unfolding marks_def
proof (intro conjI allI impI)
  show "length c = length a"
    using assms by (simp add: marks_def)
next
  fix i assume i: "i < length a"
  with assms have ab: "b ! i = a ! i \<or> b ! i = mark_obj (a ! i)"
    and bc: "c ! i = b ! i \<or> c ! i = mark_obj (b ! i)"
    by (simp_all add: marks_def)
  from ab show "c ! i = a ! i \<or> c ! i = mark_obj (a ! i)"
  proof
    assume "b ! i = a ! i"
    with bc show ?thesis by simp
  next
    assume "b ! i = mark_obj (a ! i)"
    with bc show ?thesis by (simp add: mark_obj_idem)
  qed
qed

lemma marks_destroy_shell: "marks objs (destroy_shell objs i)"
  by (simp add: marks_def destroy_shell_eq nth_list_update)

lemma marks_length: "marks objs ob \<Longrightarrow> length ob = length objs"
  by (simp add: marks_def)

lemma marks_nth:
  assumes "marks objs ob" and "i < length objs"
  shows "obj_position (ob ! i) = obj_position (objs ! i)"
    and "is_shell (ob ! i) = is_shell (objs ! i)"
    and "shell_direction ob i = shell_direction objs i"
    and "obj_is_destroyed (objs ! i) \<Longrightarrow> obj_is_destroyed (ob ! i)"
proof -
  from assms have c: "ob ! i = objs ! i \<or> ob ! i = mark_obj (objs ! i)"
    by (simp add: marks_def)
  from c show "obj_position (ob ! i) = obj_position (objs ! i)"
    by (auto simp add: mark_obj_props)
  from c show "is_shell (ob ! i) = is_shell (objs ! i)"
    by (auto simp add: mark_obj_props)
  from c show "shell_direction ob i = shell_direction objs i"
    by (cases "objs ! i") (auto simp add: shell_direction_def)
  from c show "obj_is_destroyed (objs ! i) \<Longrightarrow> obj_is_destroyed (ob ! i)"
    by (auto simp add: mark_obj_props)
qed

lemma marks_live: "marks objs ob \<Longrightarrow> live_shell ob i \<Longrightarrow> live_shell objs i"
  using marks_nth(2,4) [of objs ob i] by (auto simp add: live_shell_def marks_length)

lemma destroy_shell_nth:
  "i < length objs \<Longrightarrow>
   obj_is_destroyed (destroy_shell objs j ! i)
     \<longleftrightarrow> obj_is_destroyed (objs ! i) \<or> (i = j \<and> is_shell (objs ! i))"
  by (simp add: destroy_shell_eq nth_list_update mark_obj_props(4))

lemma marks_fold:
  assumes "\<And>ob x. marks ob (f ob x)"
  shows "marks ob (foldl f ob xs)"
proof (induction xs arbitrary: ob)
  case Nil
  show ?case by (simp add: marks_refl)
next
  case (Cons x xs)
  from assms [of ob x] Cons [of "f ob x"] show ?case
    by (auto intro: marks_trans)
qed

lemma destroy_list_nth:
  "i < length ob \<Longrightarrow>
   obj_is_destroyed (foldl destroy_shell ob xs ! i)
     \<longleftrightarrow> obj_is_destroyed (ob ! i) \<or> (i \<in> set xs \<and> is_shell (ob ! i))"
proof (induction xs arbitrary: ob)
  case Nil
  then show ?case by simp
next
  case (Cons x xs)
  have m: "marks ob (destroy_shell ob x)" by (rule marks_destroy_shell)
  from Cons.prems have l: "i < length (destroy_shell ob x)"
    using marks_length [OF m] by simp
  from Cons.IH [OF l] show ?case
    using destroy_shell_nth [OF Cons.prems, of x] marks_nth(2) [OF m Cons.prems] by auto
qed

subsection \<open>The groups\<close>

lemma shells_at_intended_pos_fold:
  "foldl (\<lambda>m (shell, pos). if live_shell objs shell then m(pos := m pos @ [shell]) else m) m0 sip p
   = m0 p @ map fst (filter (\<lambda>(shell, pos). live_shell objs shell \<and> pos = p) sip)"
  by (induction sip arbitrary: m0) (auto simp add: split_beta)

lemma shells_at_intended_pos_eq:
  "shells_at_intended_pos objs sip p
   = map fst (filter (\<lambda>(shell, pos). live_shell objs shell \<and> pos = p) sip)"
  by (simp add: shells_at_intended_pos_def shells_at_intended_pos_fold)

lemma group_member:
  "i \<in> set (shells_at_intended_pos objs sip p) \<longleftrightarrow> (i, p) \<in> set sip \<and> live_shell objs i"
  by (force simp add: shells_at_intended_pos_eq)

lemma key_member:
  "p \<in> set (intended_keys objs sip) \<longleftrightarrow> (\<exists>i. (i, p) \<in> set sip \<and> live_shell objs i)"
  by (force simp add: intended_keys_def)

lemma two_members:
  assumes "x \<in> set xs" and "y \<in> set xs" and "x \<noteq> y"
  shows "1 < length xs"
proof -
  from assms have "card {x, y} \<le> card (set xs)"
    by (intro card_mono) auto
  also have "\<dots> \<le> length xs" by (rule card_length)
  finally show ?thesis using assms(3) by simp
qed

lemma group_distinct:
  "distinct (map fst sip) \<Longrightarrow> distinct (shells_at_intended_pos objs sip p)"
  by (simp add: shells_at_intended_pos_eq distinct_map_filter)

lemma another_member:
  assumes "distinct xs" and "1 < length xs"
  shows "\<exists>y \<in> set xs. y \<noteq> x"
proof -
  from assms(2) obtain a b rest where xs: "xs = a # b # rest"
    by (cases xs; cases "tl xs") auto
  with assms(1) have "a \<noteq> b" by simp
  then have "a \<noteq> x \<or> b \<noteq> x" by auto
  with xs show ?thesis by auto
qed

lemma marks_destroy_groups: "marks objs (destroy_groups objs sip)"
  unfolding destroy_groups_def
  by (rule marks_fold) (auto simp add: Let_def marks_refl intro: marks_fold marks_destroy_shell)

lemma destroy_groups_fold_nth:
  assumes "i < length ob"
  shows "obj_is_destroyed
      (foldl (\<lambda>ob pos. let shells = g pos
                        in if length shells > 1 then foldl destroy_shell ob shells else ob)
         ob ks ! i)
     \<longleftrightarrow> obj_is_destroyed (ob ! i)
        \<or> (is_shell (ob ! i) \<and> (\<exists>p \<in> set ks. 1 < length (g p) \<and> i \<in> set (g p)))"
  using assms
proof (induction ks arbitrary: ob)
  case Nil
  then show ?case by simp
next
  case (Cons k ks)
  let ?ob = "if length (g k) > 1 then foldl destroy_shell ob (g k) else ob"
  have m: "marks ob ?ob"
    by (auto simp add: marks_refl intro: marks_fold marks_destroy_shell)
  with Cons.prems have l: "i < length ?ob" by (simp add: marks_length)
  have s: "is_shell (?ob ! i) = is_shell (ob ! i)"
    using marks_nth(2) [OF m Cons.prems] .
  have d: "obj_is_destroyed (?ob ! i)
      \<longleftrightarrow> obj_is_destroyed (ob ! i) \<or> (is_shell (ob ! i) \<and> 1 < length (g k) \<and> i \<in> set (g k))"
    using destroy_list_nth [OF Cons.prems, of "g k"] by auto
  from Cons.IH [OF l] s d show ?case
    by (auto simp add: Let_def)
qed

lemma destroy_groups_nth:
  assumes "i < length objs"
  shows "obj_is_destroyed (destroy_groups objs sip ! i)
     \<longleftrightarrow> obj_is_destroyed (objs ! i)
        \<or> (\<exists>p. 1 < length (shells_at_intended_pos objs sip p)
                \<and> i \<in> set (shells_at_intended_pos objs sip p))"
proof -
  have "i \<in> set (shells_at_intended_pos objs sip p) \<Longrightarrow>
      p \<in> set (intended_keys objs sip) \<and> is_shell (objs ! i)" for p
    by (auto simp add: group_member key_member live_shell_def)
  then show ?thesis
    unfolding destroy_groups_def destroy_groups_fold_nth [OF assms] by blast
qed


subsection \<open>The head-on pass\<close>

lemma marks_headon_inner: "marks ob (headon_inner s ob e)"
  by (cases e)
    (auto simp add: headon_inner_def marks_refl
      intro: marks_trans [OF marks_destroy_shell marks_destroy_shell])

lemma marks_headon_outer: "marks ob (headon_outer sip ob s)"
  by (auto simp add: headon_outer_def marks_refl intro: marks_fold marks_headon_inner)

lemma marks_resolve: "marks objs (resolveShellShellCollisions objs sip)"
  unfolding resolveShellShellCollisions_def Let_def
  by (rule marks_trans [OF marks_destroy_groups]) (rule marks_fold, rule marks_headon_outer)

lemma opposite_directions_sym: "opposite_directions d1 d2 = opposite_directions d2 d1"
  by (auto simp add: opposite_directions_def)

text \<open>A head-on pair \<open>a\<close>, \<open>b\<close> that no third projectile disturbs.\<close>

definition headon_pair ::
  "Obj list \<Rightarrow> (nat \<times> Position) list \<Rightarrow> nat \<Rightarrow> Position \<Rightarrow> nat \<Rightarrow> Position \<Rightarrow> bool" where
  "headon_pair objs sip a pa b pb \<longleftrightarrow>
     distinct (map fst sip) \<and> (a, pa) \<in> set sip \<and> (b, pb) \<in> set sip
     \<and> live_shell objs a \<and> live_shell objs b \<and> a \<noteq> b
     \<and> pa = obj_position (objs ! b)
     \<and> opposite_directions (shell_direction objs a) (shell_direction objs b)
     \<and> undisturbed objs sip a pa b pb"

lemma headon_pairD:
  assumes "headon_pair objs sip a pa b pb"
  shows "distinct (map fst sip)" and "(a, pa) \<in> set sip" and "(b, pb) \<in> set sip"
    and "live_shell objs a" and "live_shell objs b" and "a \<noteq> b"
    and "pa = obj_position (objs ! b)"
    and "opposite_directions (shell_direction objs a) (shell_direction objs b)"
    and "undisturbed objs sip a pa b pb"
  using assms unfolding headon_pair_def by blast+

definition pair_inv :: "Obj list \<Rightarrow> nat \<Rightarrow> nat \<Rightarrow> Obj list \<Rightarrow> bool" where
  "pair_inv objs a b ob \<longleftrightarrow>
     marks objs ob \<and> (obj_is_destroyed (ob ! a) \<longleftrightarrow> obj_is_destroyed (ob ! b))"

lemma distinct_fst_unique:
  "distinct (map fst sip) \<Longrightarrow> (i, p) \<in> set sip \<Longrightarrow> (i, q) \<in> set sip \<Longrightarrow> p = q"
  by (meson eq_key_imp_eq_value)

lemma headon_inner_keeps:
  assumes hp: "headon_pair objs sip a pa b pb"
    and inv: "pair_inv objs a b ob"
    and s: "live_shell objs s"
    and e: "e \<in> set sip"
  shows "pair_inv objs a b (headon_inner s ob e)"
proof -
  obtain other ip where eq: "e = (other, ip)" by (cases e)
  from inv have m: "marks objs ob" by (simp add: pair_inv_def)
  have m': "marks objs (headon_inner s ob e)"
    using m marks_headon_inner by (rule marks_trans)
  from headon_pairD(4,5) [OF hp] have la: "a < length objs" "is_shell (objs ! a)"
    and lb: "b < length objs" "is_shell (objs ! b)"
    by (simp_all add: live_shell_def)
  from s have ls: "s < length objs" by (simp add: live_shell_def)
  show ?thesis
  proof (cases "live_shell ob other \<and> ip = obj_position (ob ! s) \<and> s \<noteq> other
      \<and> opposite_directions (shell_direction ob s) (shell_direction ob other)")
    case False
    have "headon_inner s ob e = ob"
      unfolding eq headon_inner_def prod.case by (rule if_not_P) (rule False)
    with inv show ?thesis by simp
  next
    case True
    then have lo: "live_shell objs other"
      using m marks_live by blast
    then have o: "other < length objs" by (simp add: live_shell_def)
    from True m ls o have c: "ip = obj_position (objs ! s)" "s \<noteq> other"
        "opposite_directions (shell_direction objs s) (shell_direction objs other)"
      by (simp_all add: marks_nth)
    from hp have u1: "\<And>c pc. (c, pc) \<in> set sip \<Longrightarrow> live_shell objs c \<Longrightarrow> c \<noteq> a \<Longrightarrow> c \<noteq> b \<Longrightarrow>
          \<not> (pc = obj_position (objs ! a)
             \<and> opposite_directions (shell_direction objs a) (shell_direction objs c))
        \<and> \<not> (pc = obj_position (objs ! b)
             \<and> opposite_directions (shell_direction objs b) (shell_direction objs c))"
      and u2: "\<And>c. live_shell objs c \<Longrightarrow> c \<noteq> a \<Longrightarrow> c \<noteq> b \<Longrightarrow>
          \<not> (pa = obj_position (objs ! c)
             \<and> opposite_directions (shell_direction objs c) (shell_direction objs a))
        \<and> \<not> (pb = obj_position (objs ! c)
             \<and> opposite_directions (shell_direction objs c) (shell_direction objs b))"
      using headon_pairD(9) [OF hp] unfolding undisturbed_def by blast+
    note d = headon_pairD(1,2,3) [OF hp]
    have both: "(a = s \<or> a = other) \<longleftrightarrow> (b = s \<or> b = other)"
    proof -
      have "b = s \<or> b = other" if "a = s"
      proof (rule ccontr)
        assume n: "\<not> (b = s \<or> b = other)"
        with that c have "other \<noteq> a" "other \<noteq> b" by auto
        from e eq c have "(other, obj_position (objs ! s)) \<in> set sip" by simp
        from u1 [OF this lo \<open>other \<noteq> a\<close> \<open>other \<noteq> b\<close>] c that show False by simp
      qed
      moreover have "b = s \<or> b = other" if "a = other"
      proof (rule ccontr)
        assume n: "\<not> (b = s \<or> b = other)"
        with that c have "s \<noteq> a" "s \<noteq> b" by auto
        from that e eq d have "ip = pa" by (auto dest: distinct_fst_unique)
        with u2 [OF s \<open>s \<noteq> a\<close> \<open>s \<noteq> b\<close>] c that show False by simp
      qed
      moreover have "a = s \<or> a = other" if "b = s"
      proof (rule ccontr)
        assume n: "\<not> (a = s \<or> a = other)"
        with that c have "other \<noteq> a" "other \<noteq> b" by auto
        from e eq c have "(other, obj_position (objs ! s)) \<in> set sip" by simp
        from u1 [OF this lo \<open>other \<noteq> a\<close> \<open>other \<noteq> b\<close>] c that show False by simp
      qed
      moreover have "a = s \<or> a = other" if "b = other"
      proof (rule ccontr)
        assume n: "\<not> (a = s \<or> a = other)"
        with that c have "s \<noteq> a" "s \<noteq> b" by auto
        from that e eq d have "ip = pb" by (auto dest: distinct_fst_unique)
        with u2 [OF s \<open>s \<noteq> a\<close> \<open>s \<noteq> b\<close>] c that show False by simp
      qed
      ultimately show ?thesis by blast
    qed
    have res: "headon_inner s ob e = destroy_shell (destroy_shell ob s) other"
      using True eq by (simp add: headon_inner_def)
    have len: "length ob = length objs" "length (destroy_shell ob s) = length objs"
      using m marks_destroy_shell [of ob s] by (simp_all add: marks_length)
    have sh: "is_shell (ob ! a)" "is_shell (ob ! b)"
        "is_shell (destroy_shell ob s ! a)" "is_shell (destroy_shell ob s ! b)"
      using la lb m marks_trans [OF m marks_destroy_shell [of ob s]]
      by (simp_all add: marks_nth(2))
    have da: "obj_is_destroyed (headon_inner s ob e ! a)
        \<longleftrightarrow> obj_is_destroyed (ob ! a) \<or> a = s \<or> a = other"
      using la len sh by (auto simp add: res destroy_shell_nth)
    have db: "obj_is_destroyed (headon_inner s ob e ! b)
        \<longleftrightarrow> obj_is_destroyed (ob ! b) \<or> b = s \<or> b = other"
      using lb len sh by (auto simp add: res destroy_shell_nth)
    from da db both inv m' show ?thesis
      by (auto simp add: pair_inv_def)
  qed
qed

lemma headon_inner_fold_keeps:
  assumes hp: "headon_pair objs sip a pa b pb" and s: "live_shell objs s"
  shows "pair_inv objs a b ob \<Longrightarrow> set es \<subseteq> set sip \<Longrightarrow>
    pair_inv objs a b (foldl (headon_inner s) ob es)"
proof (induction es arbitrary: ob)
  case Nil
  then show ?case by simp
next
  case (Cons e es)
  from Cons.prems have "pair_inv objs a b (headon_inner s ob e)"
    using headon_inner_keeps [OF hp _ s] by simp
  with Cons show ?case by simp
qed

lemma headon_outer_keeps:
  assumes "headon_pair objs sip a pa b pb" and "live_shell objs s" and "pair_inv objs a b ob"
  shows "pair_inv objs a b (headon_outer sip ob s)"
  using assms headon_inner_fold_keeps [of objs sip a pa b pb s ob sip]
  by (simp add: headon_outer_def)

lemma headon_inner_fold_hits:
  assumes hp: "headon_pair objs sip a pa b pb"
  shows "pair_inv objs a b ob \<Longrightarrow> (a, pa) \<in> set es \<Longrightarrow> set es \<subseteq> set sip \<Longrightarrow>
    obj_is_destroyed (foldl (headon_inner b) ob es ! b)"
proof (induction es arbitrary: ob)
  case Nil
  then show ?case by simp
next
  case (Cons e es)
  note la = headon_pairD(4) [OF hp] and lb = headon_pairD(5) [OF hp]
    and ne = headon_pairD(6) [OF hp] and pa = headon_pairD(7) [OF hp]
    and opp = headon_pairD(8) [OF hp]
  let ?ob = "headon_inner b ob e"
  have inv': "pair_inv objs a b ?ob"
    using headon_inner_keeps [OF hp Cons.prems(1) lb] Cons.prems(3) by simp
  have mono: "obj_is_destroyed (foldl (headon_inner b) ?ob es ! b)" if "obj_is_destroyed (?ob ! b)"
  proof -
    have "marks ?ob (foldl (headon_inner b) ?ob es)"
      by (rule marks_fold) (rule marks_headon_inner)
    moreover from inv' have "marks objs ?ob" by (simp add: pair_inv_def)
    then have "b < length ?ob"
      using lb marks_length [of objs ?ob] by (simp add: live_shell_def)
    ultimately show ?thesis using that by (simp add: marks_nth(4))
  qed
  show ?case
  proof (cases "obj_is_destroyed (?ob ! b)")
    case True
    with mono show ?thesis by simp
  next
    case False
    have "e \<noteq> (a, pa)"
    proof
      assume e: "e = (a, pa)"
      from Cons.prems(1) have m: "marks objs ob" by (simp add: pair_inv_def)
      from lb la have bl: "b < length objs" "a < length objs" by (simp_all add: live_shell_def)
      have "marks ob ?ob" by (rule marks_headon_inner)
      with False bl m have nb: "\<not> obj_is_destroyed (ob ! b)"
        using marks_nth(4) [of ob ?ob b] marks_length [OF m] by auto
      with Cons.prems(1) have na: "\<not> obj_is_destroyed (ob ! a)"
        by (simp add: pair_inv_def)
      with la m bl have "live_shell ob a"
        using marks_length [OF m] by (simp add: live_shell_def marks_nth(2))
      moreover have "pa = obj_position (ob ! b)"
        using pa m bl by (simp add: marks_nth(1))
      moreover have "opposite_directions (shell_direction ob b) (shell_direction ob a)"
        using opp m bl by (simp add: marks_nth(3) opposite_directions_sym)
      ultimately have "?ob = destroy_shell (destroy_shell ob b) a"
        using ne e by (simp add: headon_inner_def)
      moreover have "b < length ob" "is_shell (ob ! b)"
        using m bl lb marks_length [OF m] by (simp_all add: marks_nth(2) live_shell_def)
      moreover have "b < length (destroy_shell ob b)"
        using \<open>b < length ob\<close> marks_length [OF marks_destroy_shell, of ob b] by simp
      ultimately have "obj_is_destroyed (?ob ! b)"
        by (simp add: destroy_shell_nth)
      with False show False by simp
    qed
    with Cons.prems have "(a, pa) \<in> set es" "set es \<subseteq> set sip" by auto
    from Cons.IH [OF inv' this] show ?thesis by simp
  qed
qed

lemma headon_outer_fold:
  assumes hp: "headon_pair objs sip a pa b pb"
  shows "pair_inv objs a b ob \<Longrightarrow> \<forall>s \<in> set ss. live_shell objs s \<Longrightarrow>
    b \<in> set ss \<or> obj_is_destroyed (ob ! b) \<Longrightarrow>
    pair_inv objs a b (foldl (headon_outer sip) ob ss)
    \<and> obj_is_destroyed (foldl (headon_outer sip) ob ss ! b)"
proof (induction ss arbitrary: ob)
  case Nil
  then show ?case by simp
next
  case (Cons s ss)
  note lb = headon_pairD(5) [OF hp] and ea = headon_pairD(2) [OF hp]
  let ?ob = "headon_outer sip ob s"
  have inv': "pair_inv objs a b ?ob"
    using headon_outer_keeps [OF hp _ Cons.prems(1)] Cons.prems(2) by simp
  from Cons.prems(1) have "marks objs ob" by (simp add: pair_inv_def)
  then have bl: "b < length ob"
    using lb marks_length [of objs ob] by (simp add: live_shell_def)
  have "b \<in> set ss \<or> obj_is_destroyed (?ob ! b)"
  proof (cases "s = b")
    case True
    show ?thesis
    proof (cases "obj_is_destroyed (ob ! b)")
      case True
      with \<open>s = b\<close> show ?thesis by (simp add: headon_outer_def)
    next
      case False
      with \<open>s = b\<close> headon_inner_fold_hits [OF hp Cons.prems(1) ea] show ?thesis
        by (simp add: headon_outer_def)
    qed
  next
    case False
    with Cons.prems(3) have "b \<in> set ss \<or> obj_is_destroyed (ob ! b)" by auto
    then show ?thesis
      using marks_nth(4) [OF marks_headon_outer bl, of sip s] by auto
  qed
  from Cons.IH [OF inv' _ this] Cons.prems(2) show ?case by simp
qed

lemma destroy_groups_pair:
  assumes hp: "headon_pair objs sip a pa b pb"
  shows "pair_inv objs a b (destroy_groups objs sip)"
proof -
  note d = headon_pairD(1) [OF hp] and ea = headon_pairD(2) [OF hp]
    and eb = headon_pairD(3) [OF hp] and la = headon_pairD(4) [OF hp]
    and lb = headon_pairD(5) [OF hp] and ne = headon_pairD(6) [OF hp]
  have u: "\<And>c pc. (c, pc) \<in> set sip \<Longrightarrow> live_shell objs c \<Longrightarrow> c \<noteq> a \<Longrightarrow> c \<noteq> b \<Longrightarrow>
      pc \<noteq> pa \<and> pc \<noteq> pb"
    using headon_pairD(9) [OF hp] unfolding undisturbed_def by blast
  let ?g = "shells_at_intended_pos objs sip"
  have ga: "a \<in> set (?g p) \<longleftrightarrow> p = pa" for p
    using ea la d by (auto simp add: group_member dest: distinct_fst_unique)
  have gb: "b \<in> set (?g p) \<longleftrightarrow> p = pb" for p
    using eb lb d by (auto simp add: group_member dest: distinct_fst_unique)
  have big: "1 < length (?g q) \<longleftrightarrow> pa = pb" if q: "q = pa \<or> q = pb" for q
  proof
    assume "pa = pb"
    with q have "a \<in> set (?g q)" "b \<in> set (?g q)" by (auto simp add: ga gb)
    then show "1 < length (?g q)" using ne by (rule two_members)
  next
    assume l: "1 < length (?g q)"
    have dg: "distinct (?g q)" using d by (rule group_distinct)
    show "pa = pb"
    proof (rule ccontr)
      assume n: "pa \<noteq> pb"
      from q show False
      proof
        assume qa: "q = pa"
        from another_member [OF dg l, of a] obtain y where y: "y \<in> set (?g q)" "y \<noteq> a" by auto
        then have yy: "(y, q) \<in> set sip" "live_shell objs y" by (simp_all add: group_member)
        have "y \<noteq> b" using y(1) gb [of q] qa n by auto
        with u [OF yy y(2)] qa show False by simp
      next
        assume qb: "q = pb"
        from another_member [OF dg l, of b] obtain y where y: "y \<in> set (?g q)" "y \<noteq> b" by auto
        then have yy: "(y, q) \<in> set sip" "live_shell objs y" by (simp_all add: group_member)
        have "y \<noteq> a" using y(1) ga [of q] qb n by auto
        with u [OF yy this y(2)] qb show False by simp
      qed
    qed
  qed
  from la lb have bounds: "a < length objs" "b < length objs"
    and alive: "\<not> obj_is_destroyed (objs ! a)" "\<not> obj_is_destroyed (objs ! b)"
    by (simp_all add: live_shell_def)
  have "obj_is_destroyed (destroy_groups objs sip ! a) \<longleftrightarrow> 1 < length (?g pa)"
    using alive by (auto simp add: destroy_groups_nth [OF bounds(1)] ga)
  moreover have "obj_is_destroyed (destroy_groups objs sip ! b) \<longleftrightarrow> 1 < length (?g pb)"
    using alive by (auto simp add: destroy_groups_nth [OF bounds(2)] gb)
  ultimately show ?thesis
    using big [of pa] big [of pb] by (simp add: pair_inv_def marks_destroy_groups)
qed

lemma headon_pair_destroyed:
  assumes hp: "headon_pair objs sip a pa b pb"
  shows "obj_is_destroyed (resolveShellShellCollisions objs sip ! a)
    \<and> obj_is_destroyed (resolveShellShellCollisions objs sip ! b)"
proof -
  let ?ob1 = "destroy_groups objs sip"
  have inv1: "pair_inv objs a b ?ob1"
    using hp by (rule destroy_groups_pair)
  then have m1: "marks objs ?ob1" by (simp add: pair_inv_def)
  have live: "\<forall>s \<in> set (getShells ?ob1). live_shell objs s"
    using m1 by (auto simp add: getShells_def intro: marks_live)
  note lb = headon_pairD(5) [OF hp]
  then have "b < length ?ob1" "is_shell (?ob1 ! b)"
    using m1 marks_length [OF m1] by (simp_all add: live_shell_def marks_nth(2))
  then have "b \<in> set (getShells ?ob1) \<or> obj_is_destroyed (?ob1 ! b)"
    by (auto simp add: getShells_def live_shell_def)
  from headon_outer_fold [OF hp inv1 live this] show ?thesis
    by (simp add: resolveShellShellCollisions_def pair_inv_def Let_def)
qed

lemma coinciding_destroyed:
  assumes "(i, p) \<in> set sip" and "(j, p) \<in> set sip" and "i \<noteq> j"
    and "live_shell objs i" and "live_shell objs j"
  shows "obj_is_destroyed (resolveShellShellCollisions objs sip ! i)"
proof -
  let ?g = "shells_at_intended_pos objs sip"
  from assms have "i \<in> set (?g p)" "j \<in> set (?g p)" by (simp_all add: group_member)
  then have "1 < length (?g p)" using assms(3) by (rule two_members)
  moreover from assms have il: "i < length objs" by (simp add: live_shell_def)
  ultimately have "obj_is_destroyed (destroy_groups objs sip ! i)"
    using \<open>i \<in> set (?g p)\<close> by (auto simp add: destroy_groups_nth)
  moreover have "marks (destroy_groups objs sip) (resolveShellShellCollisions objs sip)"
    unfolding resolveShellShellCollisions_def Let_def
    by (rule marks_fold) (rule marks_headon_outer)
  moreover have "i < length (destroy_groups objs sip)"
    using il marks_length [OF marks_destroy_groups] by simp
  ultimately show ?thesis by (simp add: marks_nth(4))
qed


text \<open>
  Claim C2, as stated, fails. In \<open>three_shells\<close> the first two projectiles are adjacent,
  fly in exactly opposite directions and advance toward each other: each intends the
  other's current cell. The first is destroyed together with the third, whose intended
  cell it shares, before the head-on check; the check skips destroyed projectiles, so
  the second survives.
\<close>

theorem headon_survivor_counterexample:
  "live_shell three_shells 0 \<and> live_shell three_shells 1
   \<and> snd (three_intended ! 0) = obj_position (three_shells ! 1)
   \<and> snd (three_intended ! 1) = obj_position (three_shells ! 0)
   \<and> opposite_directions (shell_direction three_shells 0) (shell_direction three_shells 1)
   \<and> map obj_is_destroyed (resolveShellShellCollisions three_shells three_intended)
       = [True, False, True]"
proof -
  have "map obj_is_destroyed (resolveShellShellCollisions three_shells three_intended)
       = [True, False, True]"
    apply (simp add: resolveShellShellCollisions_def destroy_groups_def intended_keys_def
        three_intended_def shells_at_intended_pos_def)
    apply (simp add: three_shells_def live_shell_def new_Shell_def destroy_shell_def)
    apply (simp add: getShells_def upt_rec live_shell_def headon_outer_def headon_inner_def)
    done
  then show ?thesis
    by (simp add: three_shells_def three_intended_def live_shell_def new_Shell_def
        opposite_directions_def shell_direction_def)
qed

text \<open>
  Claim C2, amended. In every sub-step, any two or more live projectiles whose intended
  positions coincide are all destroyed. Two live projectiles are both destroyed when
  one's intended position equals the other's current position and their directions are
  exactly opposite, provided no third live projectile collides with either of them in
  that sub-step, that is, shares an intended cell with one of them or is head-on with
  one of them (\<open>headon_pair\<close>, \<open>undisturbed\<close>); this covers two adjacent projectiles that
  advance toward each other. A projectile that such a collision has already destroyed
  does not destroy its head-on partner.
\<close>

theorem shell_shell_collisions:
  "(\<forall>i j p. (i, p) \<in> set sip \<and> (j, p) \<in> set sip \<and> i \<noteq> j
        \<and> live_shell objs i \<and> live_shell objs j \<longrightarrow>
      obj_is_destroyed (resolveShellShellCollisions objs sip ! i)
      \<and> obj_is_destroyed (resolveShellShellCollisions objs sip ! j))
   \<and> (headon_pair objs sip a pa b pb \<longrightarrow>
      obj_is_destroyed (resolveShellShellCollisions objs sip ! a)
      \<and> obj_is_destroyed (resolveShellShellCollisions objs sip ! b))"
  using coinciding_destroyed [of _ _ sip _ objs] headon_pair_destroyed [of objs sip a pa b pb]
  by blast

text \<open>Two adjacent projectiles that advance toward each other, alone on the board.\<close>

theorem shell_shell_collisions_witness:
  "headon_pair
     [ShellObj (new_Shell (Position 0 0) RIGHT), ShellObj (new_Shell (Position 1 0) LEFT)]
     [(0, Position 1 0), (1, Position 0 0)] 0 (Position 1 0) 1 (Position 0 0)
   \<and> obj_is_destroyed
       (resolveShellShellCollisions
          [ShellObj (new_Shell (Position 0 0) RIGHT), ShellObj (new_Shell (Position 1 0) LEFT)]
          [(0, Position 1 0), (1, Position 0 0)] ! 0)
   \<and> obj_is_destroyed
       (resolveShellShellCollisions
          [ShellObj (new_Shell (Position 0 0) RIGHT), ShellObj (new_Shell (Position 1 0) LEFT)]
          [(0, Position 1 0), (1, Position 0 0)] ! 1)
   \<and> (2, Position 1 0) \<in> set three_intended \<and> live_shell three_shells 2
   \<and> obj_is_destroyed (resolveShellShellCollisions three_shells three_intended ! 0)
   \<and> obj_is_destroyed (resolveShellShellCollisions three_shells three_intended ! 2)"
proof -
  let ?objs = "[ShellObj (new_Shell (Position 0 0) RIGHT), ShellObj (new_Shell (Position 1 0) LEFT)]"
  let ?sip = "[(0::nat, Position 1 0), (1, Position 0 0)]"
  have live: "\<And>c. live_shell ?objs c \<longleftrightarrow> c = 0 \<or> c = 1"
    by (auto simp add: live_shell_def new_Shell_def nth_Cons split: nat.splits)
  have hp: "headon_pair ?objs ?sip 0 (Position 1 0) 1 (Position 0 0)"
    unfolding headon_pair_def undisturbed_def live
    by (auto simp add: new_Shell_def opposite_directions_def shell_direction_def)
  have three: "(0, Position 1 0) \<in> set three_intended" "(2, Position 1 0) \<in> set three_intended"
      "live_shell three_shells 0" "live_shell three_shells 2"
    by (simp_all add: three_intended_def three_shells_def live_shell_def new_Shell_def)
  from shell_shell_collisions [of three_intended three_shells 0 "Position 0 0" 0 "Position 0 0"]
    three
  have "obj_is_destroyed (resolveShellShellCollisions three_shells three_intended ! 0)
      \<and> obj_is_destroyed (resolveShellShellCollisions three_shells three_intended ! 2)"
    by (metis zero_neq_numeral)
  with hp three shell_shell_collisions [of ?sip ?objs 0 "Position 1 0" 1 "Position 0 0"]
  show ?thesis by blast
qed

section \<open>The pursuit strategy (ChasingAlgorithm.h, ChasingAlgorithm.cpp)\<close>

text \<open>
  The members of \<^verbatim>\<open>ChasingAlgorithm\<close>. The board dimensions are \<^verbatim>\<open>size_t\<close>, modelled
  as \<^typ>\<open>nat\<close>; arithmetic that mixes them with \<^verbatim>\<open>int\<close> coordinates is unsigned
  64-bit arithmetic in the source and is written out below.
\<close>

record ChasingAlgorithm =
  shouldAskForBattleInfo :: bool
  board_matrix :: "char list list"
  currentCannonDirection :: Direction
  isDirectionInitialized :: bool
  cooldown_remaining :: int
  shells_remaining :: int
  player_id :: int
  board_width :: nat
  board_height :: nat
  previous_shell_positions :: "Position \<rightharpoonup> Position"
  shell_directions :: "Position \<rightharpoonup> Direction"

text \<open>The member initialisers and the constructor; \<^verbatim>\<open>Tank::initial_shells\<close> is a parameter.\<close>

definition new_ChasingAlgorithm :: "int \<Rightarrow> ChasingAlgorithm" where
  "new_ChasingAlgorithm initial_shells =
     \<lparr> shouldAskForBattleInfo = True, board_matrix = [], currentCannonDirection = RIGHT,
       isDirectionInitialized = False, cooldown_remaining = 0,
       shells_remaining = initial_shells, player_id = 0, board_width = 0, board_height = 0,
       previous_shell_positions = Map.empty, shell_directions = Map.empty \<rparr>"

subsection \<open>Breadth-first search\<close>

text \<open>The neighbour order of \<^verbatim>\<open>findShortestPathBFS\<close>.\<close>

definition directions :: "Direction list" where
  "directions = [UP, DOWN, LEFT, RIGHT, UP_LEFT, UP_RIGHT, DOWN_LEFT, DOWN_RIGHT]"

text \<open>
  \<^verbatim>\<open>next.x = (next.x + board_width) % board_width\<close>: the \<^verbatim>\<open>int\<close> coordinate is converted
  to \<^verbatim>\<open>size_t\<close> (modulo \<open>2^64\<close>), the sum wraps modulo \<open>2^64\<close>, and the remainder is
  stored back into the \<^verbatim>\<open>int\<close>.
\<close>

definition wrap_coord :: "int \<Rightarrow> nat \<Rightarrow> int" where
  "wrap_coord v n = int (((nat (v mod 2 ^ 64) + n) mod 2 ^ 64) mod n)"

definition neighbor :: "nat \<Rightarrow> nat \<Rightarrow> Position \<Rightarrow> Direction \<Rightarrow> Position" where
  "neighbor w h current dir =
     (let offset = getMovementOffset dir 1;
          next = pos_add current offset
      in Position (wrap_coord (px next) w) (wrap_coord (py next) h))"

text \<open>\<^verbatim>\<open>board_matrix[next.x][next.y]\<close> and \<^verbatim>\<open>isBlocked(isWall, isMine)\<close>.\<close>

definition cell :: "char list list \<Rightarrow> Position \<Rightarrow> char" where
  "cell m p = m ! nat (px p) ! nat (py p)"

definition isBlocked :: "bool \<Rightarrow> bool \<Rightarrow> bool" where
  "isBlocked isPosOccupiedByWall isPosOccupiedByMine \<longleftrightarrow>
     isPosOccupiedByWall \<or> isPosOccupiedByMine"

definition blocked :: "char list list \<Rightarrow> Position \<Rightarrow> bool" where
  "blocked m p \<longleftrightarrow> isBlocked (cell m p = CHR ''#'') (cell m p = CHR ''@'')"

text \<open>
  The body of the loop over the directions: the state is the frontier queue, the map
  \<^verbatim>\<open>came_from\<close> and the set \<^verbatim>\<open>visited\<close>.
\<close>

type_synonym bfs_state = "Position list \<times> (Position \<rightharpoonup> Position) \<times> Position set"

definition expand ::
  "nat \<Rightarrow> nat \<Rightarrow> char list list \<Rightarrow> Position \<Rightarrow> bfs_state \<Rightarrow> Direction \<Rightarrow> bfs_state" where
  "expand w h m current st dir =
     (case st of (frontier, came_from, visited) \<Rightarrow>
        let next = neighbor w h current dir in
        if next \<notin> visited \<and> \<not> blocked m next then
          (frontier @ [next], came_from(next \<mapsto> current), insert next visited)
        else (frontier, came_from, visited))"

definition grid :: "nat \<Rightarrow> nat \<Rightarrow> Position set" where
  "grid w h = {p. inside (int w) (int h) p}"

lemma finite_grid: "finite (grid w h)"
proof -
  have "grid w h \<subseteq> (\<lambda>(a, b). Position a b) ` ({0..<int w} \<times> {0..<int h})"
  proof
    fix p assume "p \<in> grid w h"
    then have "(px p, py p) \<in> {0..<int w} \<times> {0..<int h}"
      by (simp add: grid_def inside_def)
    then have "(\<lambda>(a, b). Position a b) (px p, py p) \<in> (\<lambda>(a, b). Position a b) ` ({0..<int w} \<times> {0..<int h})"
      by (rule imageI)
    then show "p \<in> (\<lambda>(a, b). Position a b) ` ({0..<int w} \<times> {0..<int h})"
      by simp
  qed
  then show ?thesis by (rule finite_subset) simp
qed

lemma wrap_coord_range: "0 < n \<Longrightarrow> 0 \<le> wrap_coord v n \<and> wrap_coord v n < int n"
  by (simp add: wrap_coord_def)

lemma neighbor_grid: "0 < w \<Longrightarrow> 0 < h \<Longrightarrow> neighbor w h current dir \<in> grid w h"
  by (simp add: neighbor_def grid_def inside_def wrap_coord_range Let_def)

definition bfs_measure :: "nat \<Rightarrow> nat \<Rightarrow> bfs_state \<Rightarrow> nat" where
  "bfs_measure w h st = (case st of (q, cf, V) \<Rightarrow> length q + 2 * card (grid w h - V))"

lemma expand_measure:
  assumes "0 < w" and "0 < h"
  shows "bfs_measure w h (expand w h m current st dir) \<le> bfs_measure w h st"
proof (cases st)
  case (fields q cf V)
  let ?n = "neighbor w h current dir"
  show ?thesis
  proof (cases "?n \<notin> V \<and> \<not> blocked m ?n")
    case True
    have n: "?n \<in> grid w h" "?n \<notin> V"
      using True assms by (simp_all add: neighbor_grid)
    then have c: "card (grid w h - insert ?n V) = card (grid w h - V) - 1"
      by (rule card_Diff_insert)
    have "finite (grid w h - V)" "?n \<in> grid w h - V"
      using finite_grid n by simp_all
    then have "0 < card (grid w h - V)"
      by (auto simp add: card_gt_0_iff)
    with c have "2 * card (grid w h - insert ?n V) + 2 = 2 * card (grid w h - V)"
      by simp
    moreover have "expand w h m current st dir = (q @ [?n], cf(?n \<mapsto> current), insert ?n V)"
      using True fields by (simp add: expand_def Let_def)
    ultimately show ?thesis
      using fields by (simp add: bfs_measure_def)
  next
    case False
    with fields show ?thesis by (auto simp add: expand_def bfs_measure_def Let_def)
  qed
qed

lemma expand_fold_measure:
  assumes "0 < w" and "0 < h"
  shows "bfs_measure w h (foldl (expand w h m current) st ds) \<le> bfs_measure w h st"
proof (induction ds arbitrary: st)
  case Nil
  show ?case by simp
next
  case (Cons d ds)
  have "bfs_measure w h (foldl (expand w h m current) (expand w h m current st d) ds)
      \<le> bfs_measure w h (expand w h m current st d)"
    by (rule Cons.IH)
  also have "\<dots> \<le> bfs_measure w h st"
    using assms by (rule expand_measure)
  finally show ?case by simp
qed

text \<open>
  The \<^verbatim>\<open>while\<close> loop of \<^verbatim>\<open>findShortestPathBFS\<close>. It returns the flag \<^verbatim>\<open>found\<close> and the
  map \<^verbatim>\<open>came_from\<close>. The remainder by a zero dimension is undefined behaviour in the
  source; the model returns \<open>None\<close> there.
\<close>

function bfs_loop ::
  "nat \<Rightarrow> nat \<Rightarrow> char list list \<Rightarrow> Position \<Rightarrow> bfs_state \<Rightarrow> (bool \<times> (Position \<rightharpoonup> Position)) option" where
  "bfs_loop w h m goal (frontier, came_from, visited) =
     (case frontier of
        [] \<Rightarrow> Some (False, came_from)
      | current # rest \<Rightarrow>
          if current = goal then Some (True, came_from)
          else if w = 0 \<or> h = 0 then None
          else bfs_loop w h m goal
                 (foldl (expand w h m current) (rest, came_from, visited) directions))"
  by pat_completeness auto
termination
proof (relation "measure (\<lambda>(w, h, m, goal, st). bfs_measure w h st)", goal_cases)
  case 1
  show ?case by simp
next
  case (2 w h m goal frontier came_from visited current rest)
  then have "0 < w" "0 < h" by simp_all
  then have "bfs_measure w h (foldl (expand w h m current) (rest, came_from, visited) directions)
      \<le> bfs_measure w h (rest, came_from, visited)"
    by (rule expand_fold_measure)
  also have "\<dots> < bfs_measure w h (frontier, came_from, visited)"
    using 2 by (simp add: bfs_measure_def)
  finally show ?case by simp
qed

text \<open>
  \<^verbatim>\<open>reconstructPath\<close>. Its loop follows \<^verbatim>\<open>came_from\<close> from the goal until it meets the
  start; on a map with a cycle it does not return, which is the value \<open>None\<close>. The
  loop returns the path from the goal backwards, or the empty path when an entry is
  missing.
\<close>

partial_function (option) reconstruct_loop ::
  "Position \<Rightarrow> (Position \<rightharpoonup> Position) \<Rightarrow> Position \<Rightarrow> Position list \<Rightarrow> Position list option" where
  "reconstruct_loop start came_from current path =
     (if current \<noteq> start then
        (case came_from current of
           None \<Rightarrow> Some []
         | Some previous \<Rightarrow> reconstruct_loop start came_from previous (path @ [current]))
      else Some path)"

definition reconstructPath ::
  "Position \<Rightarrow> Position \<Rightarrow> (Position \<rightharpoonup> Position) \<Rightarrow> Position list option" where
  "reconstructPath start goal came_from =
     (if came_from goal = None \<and> start \<noteq> goal then Some []
      else map_option rev (reconstruct_loop start came_from goal []))"

definition findShortestPathBFS ::
  "nat \<Rightarrow> nat \<Rightarrow> char list list \<Rightarrow> Position \<Rightarrow> Position \<Rightarrow> Position list option" where
  "findShortestPathBFS w h m start goal =
     (case bfs_loop w h m goal ([start], Map.empty, {start}) of
        None \<Rightarrow> None
      | Some (found, came_from) \<Rightarrow>
          if found then reconstructPath start goal came_from else Some [])"


subsection \<open>The grid graph and its shortest walks\<close>

text \<open>
  The 8-connected wraparound grid without obstacle and trap cells: from a cell of the
  board, a hop leads to the cell one step away in one of the 8 directions, coordinates
  taken modulo the board dimensions, if that cell holds neither \<^verbatim>\<open>'#'\<close> nor \<^verbatim>\<open>'@'\<close>.
\<close>

definition wrap_step :: "nat \<Rightarrow> nat \<Rightarrow> Position \<Rightarrow> Direction \<Rightarrow> Position" where
  "wrap_step w h u d =
     Position ((px u + px (getMovementOffset d 1)) mod int w)
              ((py u + py (getMovementOffset d 1)) mod int h)"

definition grid_edge :: "nat \<Rightarrow> nat \<Rightarrow> char list list \<Rightarrow> Position \<Rightarrow> Position \<Rightarrow> bool" where
  "grid_edge w h m u v \<longleftrightarrow> u \<in> grid w h \<and> (\<exists>d. v = wrap_step w h u d) \<and> \<not> blocked m v"

text \<open>A walk from \<open>u\<close>: the cells entered, hop by hop.\<close>

fun is_path :: "nat \<Rightarrow> nat \<Rightarrow> char list list \<Rightarrow> Position \<Rightarrow> Position list \<Rightarrow> bool" where
  "is_path w h m u [] \<longleftrightarrow> True"
| "is_path w h m u (v # vs) \<longleftrightarrow> grid_edge w h m u v \<and> is_path w h m v vs"

definition walk :: "nat \<Rightarrow> nat \<Rightarrow> char list list \<Rightarrow> Position \<Rightarrow> Position list \<Rightarrow> Position \<Rightarrow> bool" where
  "walk w h m start path v \<longleftrightarrow> is_path w h m start path \<and> last (start # path) = v"

definition reachable :: "nat \<Rightarrow> nat \<Rightarrow> char list list \<Rightarrow> Position \<Rightarrow> Position \<Rightarrow> bool" where
  "reachable w h m start v \<longleftrightarrow> (\<exists>path. walk w h m start path v)"

text \<open>The true minimum hop count: the length of a shortest walk.\<close>

definition hop_count :: "nat \<Rightarrow> nat \<Rightarrow> char list list \<Rightarrow> Position \<Rightarrow> Position \<Rightarrow> nat" where
  "hop_count w h m start v = (LEAST n. \<exists>path. walk w h m start path v \<and> length path = n)"

text \<open>
  The order of ties. The rank of a hop is the place, in \<open>directions\<close>, of the first
  direction that makes it; the key of a walk is the list of the ranks of its hops; keys
  of the same length are compared lexicographically.
\<close>

definition rank :: "nat \<Rightarrow> nat \<Rightarrow> Position \<Rightarrow> Position \<Rightarrow> nat" where
  "rank w h u v = length (takeWhile (\<lambda>d. wrap_step w h u d \<noteq> v) directions)"

fun path_key :: "nat \<Rightarrow> nat \<Rightarrow> Position \<Rightarrow> Position list \<Rightarrow> nat list" where
  "path_key w h u [] = []"
| "path_key w h u (v # vs) = rank w h u v # path_key w h v vs"

fun key_less :: "nat list \<Rightarrow> nat list \<Rightarrow> bool" where
  "key_less (x # xs) (y # ys) \<longleftrightarrow> x < y \<or> (x = y \<and> key_less xs ys)"
| "key_less _ _ \<longleftrightarrow> False"

definition key_le :: "nat list \<Rightarrow> nat list \<Rightarrow> bool" where
  "key_le xs ys \<longleftrightarrow> xs = ys \<or> key_less xs ys"


subsection \<open>The state of the search\<close>

text \<open>
  The cells are visited in the order of their hop counts and, among cells with the same
  hop count, of the keys \<open>K\<close> of their walks in the search tree.
\<close>

definition before :: "(Position \<Rightarrow> nat) \<Rightarrow> (Position \<Rightarrow> nat list) \<Rightarrow> Position \<Rightarrow> Position \<Rightarrow> bool" where
  "before H K u v \<longleftrightarrow> H u < H v \<or> (H u = H v \<and> key_less (K u) (K v))"

text \<open>
  The search tree \<^verbatim>\<open>came_from\<close> on the visited cells: every visited cell is reachable,
  its key has the length of its hop count and is the least key of a shortest walk to
  it, and its entry in \<^verbatim>\<open>came_from\<close> is a visited cell one hop before it.
\<close>

definition good_tree ::
  "nat \<Rightarrow> nat \<Rightarrow> char list list \<Rightarrow> Position \<Rightarrow> (Position \<rightharpoonup> Position) \<Rightarrow> Position set
   \<Rightarrow> (Position \<Rightarrow> nat list) \<Rightarrow> bool" where
  "good_tree w h m start cf V K \<longleftrightarrow>
     start \<in> V \<and> V \<subseteq> grid w h \<and> K start = []
     \<and> (\<forall>v \<in> V. reachable w h m start v \<and> length (K v) = hop_count w h m start v)
     \<and> (\<forall>v \<in> V. \<forall>path. walk w h m start path v \<and> length path = hop_count w h m start v
           \<longrightarrow> key_le (K v) (path_key w h start path))
     \<and> (\<forall>v \<in> V. v \<noteq> start \<longrightarrow>
           (\<exists>u \<in> V. cf v = Some u \<and> grid_edge w h m u v
              \<and> hop_count w h m start v = hop_count w h m start u + 1
              \<and> K v = K u @ [rank w h u v]))"

text \<open>The state at the head of the \<^verbatim>\<open>while\<close> loop.\<close>

definition at_head ::
  "nat \<Rightarrow> nat \<Rightarrow> char list list \<Rightarrow> Position \<Rightarrow> Position \<Rightarrow> Position list
   \<Rightarrow> (Position \<rightharpoonup> Position) \<Rightarrow> Position set \<Rightarrow> (Position \<Rightarrow> nat list) \<Rightarrow> bool" where
  "at_head w h m start goal q cf V K \<longleftrightarrow>
     good_tree w h m start cf V K \<and> set q \<subseteq> V
     \<and> (\<forall>x \<in> set q. hop_count w h m start x \<le> hop_count w h m start (hd q) + 1)
     \<and> sorted_wrt (before (hop_count w h m start) K) q
     \<and> (\<forall>u \<in> V. u \<notin> set q \<longrightarrow>
           u \<noteq> goal \<and> (\<forall>x \<in> set q. before (hop_count w h m start) K u x)
           \<and> (\<forall>v. grid_edge w h m u v \<longrightarrow> v \<in> V))
     \<and> (q \<noteq> [] \<longrightarrow>
           (\<forall>v. reachable w h m start v
                \<and> hop_count w h m start v \<le> hop_count w h m start (hd q) \<longrightarrow> v \<in> V))
     \<and> (\<forall>x \<in> set q. \<forall>u. cf x = Some u \<longrightarrow> u \<in> V \<and> u \<notin> set q)"

text \<open>The state inside the loop over the directions, after the directions \<open>done\<close>.\<close>

definition in_progress ::
  "nat \<Rightarrow> nat \<Rightarrow> char list list \<Rightarrow> Position \<Rightarrow> Position \<Rightarrow> Position \<Rightarrow> Direction list
   \<Rightarrow> Position list \<Rightarrow> (Position \<rightharpoonup> Position) \<Rightarrow> Position set
   \<Rightarrow> (Position \<Rightarrow> nat list) \<Rightarrow> bool" where
  "in_progress w h m start goal cur done q cf V K \<longleftrightarrow>
     good_tree w h m start cf V K \<and> (\<exists>later. directions = done @ later)
     \<and> cur \<in> V \<and> cur \<noteq> goal \<and> set q \<subseteq> V
     \<and> (\<forall>x \<in> set q. hop_count w h m start x \<le> hop_count w h m start cur + 1
           \<and> before (hop_count w h m start) K cur x)
     \<and> sorted_wrt (before (hop_count w h m start) K) q
     \<and> (\<forall>u \<in> V. u \<notin> set q \<and> u \<noteq> cur \<longrightarrow>
           u \<noteq> goal \<and> before (hop_count w h m start) K u cur
           \<and> (\<forall>v. grid_edge w h m u v \<longrightarrow> v \<in> V))
     \<and> (\<forall>d \<in> set done. \<not> blocked m (wrap_step w h cur d) \<longrightarrow> wrap_step w h cur d \<in> V)
     \<and> (\<forall>v. reachable w h m start v
            \<and> hop_count w h m start v \<le> hop_count w h m start cur \<longrightarrow> v \<in> V)
     \<and> (\<forall>x \<in> set q. \<forall>u. cf x = Some u \<longrightarrow>
           u \<in> V \<and> u \<notin> set q \<and> (u = cur \<longrightarrow> rank w h cur x < length done))"

definition open_board :: "char list list" where
  "open_board = replicate 5 (replicate 5 (CHR '' ''))"


subsection \<open>The turn of the strategy\<close>

text \<open>
  \<^verbatim>\<open>getAction\<close>. The cooldown is decremented first, then the flag
  \<^verbatim>\<open>shouldAskForBattleInfo\<close> decides between the info request and the combat part (the
  rest of the body: threat check, targeting, shooting, path following), which is the
  parameter \<open>combat\<close> here; it runs on the state left by the two statements before it.
\<close>

definition decrement_tracked_cooldown :: "ChasingAlgorithm \<Rightarrow> ChasingAlgorithm" where
  "decrement_tracked_cooldown alg =
     (if cooldown_remaining alg > 0
      then alg\<lparr>cooldown_remaining := cooldown_remaining alg - 1\<rparr> else alg)"

definition getAction ::
  "(ChasingAlgorithm \<Rightarrow> ActionRequest \<times> ChasingAlgorithm) \<Rightarrow> ChasingAlgorithm
   \<Rightarrow> ActionRequest \<times> ChasingAlgorithm" where
  "getAction combat alg =
     (let alg1 = decrement_tracked_cooldown alg in
      if shouldAskForBattleInfo alg1
      then (GetBattleInfo, alg1\<lparr>shouldAskForBattleInfo := \<not> shouldAskForBattleInfo alg1\<rparr>)
      else combat (alg1\<lparr>shouldAskForBattleInfo := \<not> shouldAskForBattleInfo alg1\<rparr>))"

text \<open>The state that the combat part leaves after a shot: the cooldown is 4.\<close>

definition after_shot :: ChasingAlgorithm where
  "after_shot = (new_ChasingAlgorithm 16)\<lparr>cooldown_remaining := 4, shells_remaining := 15\<rparr>"



subsection \<open>Walks and hop counts\<close>

lemma is_path_append:
  "is_path w h m u (xs @ ys) \<longleftrightarrow> is_path w h m u xs \<and> is_path w h m (last (u # xs)) ys"
  by (induction xs arbitrary: u) auto

lemma walk_Nil: "walk w h m start [] v \<longleftrightarrow> v = start"
  by (auto simp add: walk_def)

lemma walk_snoc:
  "walk w h m start (path @ [x]) v \<longleftrightarrow>
     x = v \<and> (\<exists>u. walk w h m start path u \<and> grid_edge w h m u v)"
  by (auto simp add: walk_def is_path_append)

lemma hop_count_le: "walk w h m start path v \<Longrightarrow> hop_count w h m start v \<le> length path"
  unfolding hop_count_def by (rule Least_le) blast

lemma hop_count_walk:
  assumes "reachable w h m start v"
  shows "\<exists>path. walk w h m start path v \<and> length path = hop_count w h m start v"
proof -
  from assms obtain path where "walk w h m start path v" by (auto simp add: reachable_def)
  then have "\<exists>n. \<exists>path. walk w h m start path v \<and> length path = n" by blast
  then show ?thesis unfolding hop_count_def by (rule LeastI_ex)
qed

lemma reachable_start: "reachable w h m start start"
  unfolding reachable_def using walk_Nil by blast

lemma hop_count_start: "hop_count w h m start start = 0"
  using hop_count_le [of w h m start "[]" start] by (simp add: walk_Nil)

lemma hop_count_zero:
  assumes "reachable w h m start v" and "hop_count w h m start v = 0"
  shows "v = start"
  using hop_count_walk [OF assms(1)] assms(2) by (auto simp add: walk_Nil)

lemma reachable_step:
  assumes "reachable w h m start u" and "grid_edge w h m u v"
  shows "reachable w h m start v"
    and "hop_count w h m start v \<le> hop_count w h m start u + 1"
proof -
  from hop_count_walk [OF assms(1)] obtain path where
    p: "walk w h m start path u" "length path = hop_count w h m start u" by blast
  with assms(2) have w: "walk w h m start (path @ [v]) v"
    by (auto simp add: walk_snoc)
  then show "reachable w h m start v" by (auto simp add: reachable_def)
  from hop_count_le [OF w] p(2) show "hop_count w h m start v \<le> hop_count w h m start u + 1"
    by simp
qed

lemma shortest_walk_last_hop:
  assumes "walk w h m start (path @ [x]) v"
    and "length (path @ [x]) = hop_count w h m start v"
  shows "x = v \<and> (\<exists>u. walk w h m start path u \<and> grid_edge w h m u v
           \<and> reachable w h m start u \<and> hop_count w h m start u = length path)"
proof -
  from assms(1) obtain u where u: "x = v" "walk w h m start path u" "grid_edge w h m u v"
    by (auto simp add: walk_snoc)
  then have r: "reachable w h m start u" by (auto simp add: reachable_def)
  have "hop_count w h m start u \<le> length path"
    using u(2) by (rule hop_count_le)
  moreover have "hop_count w h m start v \<le> hop_count w h m start u + 1"
    using r u(3) by (rule reachable_step)
  ultimately have "hop_count w h m start u = length path"
    using assms(2) by simp
  with u r show ?thesis by blast
qed

lemma hop_count_pred:
  assumes "reachable w h m start v" and "v \<noteq> start"
  shows "\<exists>u. reachable w h m start u \<and> grid_edge w h m u v
           \<and> hop_count w h m start v = hop_count w h m start u + 1"
proof -
  from hop_count_walk [OF assms(1)] obtain path where
    p: "walk w h m start path v" "length path = hop_count w h m start v" by blast
  with assms(2) have "path \<noteq> []" by (auto simp add: walk_Nil)
  then obtain path' x where e: "path = path' @ [x]" by (cases path rule: rev_cases) auto
  from shortest_walk_last_hop [of w h m start path' x v] p e
  show ?thesis by auto
qed

subsection \<open>Keys\<close>

lemma path_key_snoc:
  "path_key w h u (path @ [v]) = path_key w h u path @ [rank w h (last (u # path)) v]"
  by (induction path arbitrary: u) auto

lemma length_path_key: "length (path_key w h u path) = length path"
  by (induction path arbitrary: u) auto

lemma key_less_irrefl: "\<not> key_less xs xs"
  by (induction xs) auto

lemma key_less_trans: "key_less xs ys \<Longrightarrow> key_less ys zs \<Longrightarrow> key_less xs zs"
proof (induction xs ys arbitrary: zs rule: key_less.induct)
  case (1 x xs y ys)
  then show ?case by (cases zs) auto
qed simp_all

lemma key_less_snoc:
  "length xs = length ys \<Longrightarrow>
   key_less (xs @ [a]) (ys @ [b]) \<longleftrightarrow> key_less xs ys \<or> (xs = ys \<and> a < b)"
  by (induction xs ys rule: list_induct2) auto

lemma rank_prefix:
  assumes "directions = done @ d # later" and "wrap_step w h u d = v"
    and "\<forall>d' \<in> set done. wrap_step w h u d' \<noteq> v"
  shows "rank w h u v = length done"
proof -
  have "takeWhile (\<lambda>d. wrap_step w h u d \<noteq> v) (done @ d # later)
      = done @ takeWhile (\<lambda>d. wrap_step w h u d \<noteq> v) (d # later)"
    using assms(3) by (intro takeWhile_append2) simp
  also have "\<dots> = done" using assms(2) by simp
  finally show ?thesis unfolding rank_def assms(1) by simp
qed

lemma rank_least:
  assumes "directions = done @ d # later" and "wrap_step w h u d = v"
  shows "rank w h u v \<le> length done"
proof -
  have "length (takeWhile (\<lambda>d. wrap_step w h u d \<noteq> v) (done @ d # later)) \<le> length done"
    using assms(2) by (induction "done") auto
  with assms(1) show ?thesis by (simp add: rank_def)
qed

lemma set_directions: "set directions = UNIV"
proof -
  have "d \<in> set directions" for d by (cases d) (simp_all add: directions_def)
  then show ?thesis by blast
qed

subsection \<open>The source's wraparound on the board\<close>

lemma wrap_coord_mod:
  assumes "0 < n" and "n < 2 ^ 31" and "- 1 \<le> v" and "v \<le> int n"
  shows "wrap_coord v n = v mod int n"
proof (cases "v = - 1")
  case True
  have "(18446744073709551615 + n) mod 18446744073709551616 = n - 1"
    using assms(1,2) by (simp add: mod_if)
  moreover have "int ((n - 1) mod n) = (- 1) mod int n"
    using assms(1) by (simp add: zmod_minus1 of_nat_diff)
  ultimately show ?thesis
    using True by (simp add: wrap_coord_def)
next
  case False
  with assms have v: "0 \<le> v" "v < 2 ^ 31 + 1" by simp_all
  then have "v mod 2 ^ 64 = v" by simp
  moreover have "nat v + n < 2 ^ 64" using v assms(2) by simp
  ultimately have "wrap_coord v n = int ((nat v + n) mod n)"
    by (simp add: wrap_coord_def)
  also have "\<dots> = v mod int n"
    using v by (simp add: zmod_int)
  finally show ?thesis .
qed

lemma offset_range:
  "- 1 \<le> px (getMovementOffset d 1) \<and> px (getMovementOffset d 1) \<le> 1
   \<and> - 1 \<le> py (getMovementOffset d 1) \<and> py (getMovementOffset d 1) \<le> 1"
  by (cases d) simp_all

lemma neighbor_wrap_step:
  assumes "u \<in> grid w h" and "w < 2 ^ 31" and "h < 2 ^ 31"
  shows "neighbor w h u d = wrap_step w h u d"
proof -
  from assms(1) have u: "0 \<le> px u" "px u < int w" "0 \<le> py u" "py u < int h"
    by (simp_all add: grid_def inside_def)
  then have pos: "0 < w" "0 < h" by simp_all
  have "wrap_coord (px u + px (getMovementOffset d 1)) w
      = (px u + px (getMovementOffset d 1)) mod int w"
    using pos(1) assms(2) u offset_range [of d] by (intro wrap_coord_mod) simp_all
  moreover have "wrap_coord (py u + py (getMovementOffset d 1)) h
      = (py u + py (getMovementOffset d 1)) mod int h"
    using pos(2) assms(3) u offset_range [of d] by (intro wrap_coord_mod) simp_all
  ultimately show ?thesis
    by (simp add: neighbor_def wrap_step_def pos_add_def Let_def)
qed

lemma wrap_step_grid: "0 < w \<Longrightarrow> 0 < h \<Longrightarrow> wrap_step w h u d \<in> grid w h"
  by (simp add: wrap_step_def grid_def inside_def)



subsection \<open>The invariant of the search\<close>

lemma before_irrefl: "\<not> before H K u u"
  by (simp add: before_def key_less_irrefl)

lemma before_trans: "before H K u v \<Longrightarrow> before H K v x \<Longrightarrow> before H K u x"
  unfolding before_def using key_less_trans by (metis less_trans)

lemma before_le: "before H K u v \<Longrightarrow> H u \<le> H v"
  by (auto simp add: before_def)

lemma good_treeD:
  assumes "good_tree w h m start cf V K"
  shows "start \<in> V" and "V \<subseteq> grid w h" and "K start = []"
    and "\<And>v. v \<in> V \<Longrightarrow> reachable w h m start v"
    and "\<And>v. v \<in> V \<Longrightarrow> length (K v) = hop_count w h m start v"
    and "\<And>v path. v \<in> V \<Longrightarrow> walk w h m start path v \<Longrightarrow>
           length path = hop_count w h m start v \<Longrightarrow> key_le (K v) (path_key w h start path)"
    and "\<And>v. v \<in> V \<Longrightarrow> v \<noteq> start \<Longrightarrow>
           \<exists>u \<in> V. cf v = Some u \<and> grid_edge w h m u v
              \<and> hop_count w h m start v = hop_count w h m start u + 1
              \<and> K v = K u @ [rank w h u v]"
  using assms unfolding good_tree_def by blast+

lemma at_head_init: "start \<in> grid w h \<Longrightarrow> at_head w h m start goal [start] Map.empty {start} (\<lambda>v. [])"
  unfolding at_head_def good_tree_def
  by (auto simp add: reachable_start hop_count_start before_def key_le_def length_path_key
      dest: hop_count_zero)


lemma in_progress_begin:
  assumes "at_head w h m start goal (cur # rest) cf V K" and "cur \<noteq> goal"
  shows "in_progress w h m start goal cur [] rest cf V K"
proof -
  let ?H = "hop_count w h m start"
  from assms(1) have gt: "good_tree w h m start cf V K"
    and sub: "set (cur # rest) \<subseteq> V"
    and lvl: "\<forall>x \<in> set (cur # rest). ?H x \<le> ?H cur + 1"
    and srt: "sorted_wrt (before ?H K) (cur # rest)"
    and cl: "\<forall>u \<in> V. u \<notin> set (cur # rest) \<longrightarrow>
           u \<noteq> goal \<and> (\<forall>x \<in> set (cur # rest). before ?H K u x)
           \<and> (\<forall>v. grid_edge w h m u v \<longrightarrow> v \<in> V)"
    and low: "\<forall>v. reachable w h m start v \<and> ?H v \<le> ?H cur \<longrightarrow> v \<in> V"
    and par: "\<forall>x \<in> set (cur # rest). \<forall>u. cf x = Some u \<longrightarrow> u \<in> V \<and> u \<notin> set (cur # rest)"
    unfolding at_head_def by simp_all
  have "\<forall>x \<in> set rest. ?H x \<le> ?H cur + 1 \<and> before ?H K cur x"
    using lvl srt by simp
  moreover have "sorted_wrt (before ?H K) rest"
    using srt by simp
  moreover have "\<forall>u \<in> V. u \<notin> set rest \<and> u \<noteq> cur \<longrightarrow>
           u \<noteq> goal \<and> before ?H K u cur \<and> (\<forall>v. grid_edge w h m u v \<longrightarrow> v \<in> V)"
    using cl by simp
  moreover have "\<forall>x \<in> set rest. \<forall>u. cf x = Some u \<longrightarrow>
           u \<in> V \<and> u \<notin> set rest \<and> (u = cur \<longrightarrow> rank w h cur x < length ([]::Direction list))"
    using par by auto
  ultimately show ?thesis
    unfolding in_progress_def using gt sub low assms(2) by simp
qed

lemma in_progress_skip:
  assumes ip: "in_progress w h m start goal cur done q cf V K"
    and dirs: "directions = done @ d # later"
    and skip: "wrap_step w h cur d \<in> V \<or> blocked m (wrap_step w h cur d)"
  shows "in_progress w h m start goal cur (done @ [d]) q cf V K"
proof -
  have "\<exists>later. directions = (done @ [d]) @ later"
    using dirs by auto
  moreover have "\<forall>d' \<in> set (done @ [d]). \<not> blocked m (wrap_step w h cur d') \<longrightarrow>
      wrap_step w h cur d' \<in> V"
    using ip skip unfolding in_progress_def by auto
  moreover have "\<forall>x \<in> set q. \<forall>u. cf x = Some u \<longrightarrow>
      u \<in> V \<and> u \<notin> set q \<and> (u = cur \<longrightarrow> rank w h cur x < length (done @ [d]))"
    using ip unfolding in_progress_def by (simp add: less_Suc_eq)
  ultimately show ?thesis
    using ip unfolding in_progress_def by blast
qed

lemma key_le_snoc:
  assumes "length xs = length ys" and "key_le xs ys" and "xs = ys \<longrightarrow> a \<le> b"
  shows "key_le (xs @ [a]) (ys @ [b])"
  using assms by (auto simp add: key_le_def key_less_snoc)

lemma in_progress_discover:
  assumes ip: "in_progress w h m start goal cur done q cf V K"
    and dirs: "directions = done @ d # later"
    and nxt: "next = wrap_step w h cur d"
    and new: "next \<notin> V" "\<not> blocked m next"
    and dims: "0 < w" "0 < h"
  shows "in_progress w h m start goal cur (done @ [d]) (q @ [next]) (cf(next \<mapsto> cur))
     (insert next V) (K(next := K cur @ [length done]))"
proof -
  let ?H = "hop_count w h m start"
  let ?K = "K(next := K cur @ [length done])"
  let ?cf = "cf(next \<mapsto> cur)"
  let ?V = "insert next V"
  from ip have gt: "good_tree w h m start cf V K"
    and cur: "cur \<in> V" "cur \<noteq> goal" and sub: "set q \<subseteq> V"
    and lvl: "\<And>x. x \<in> set q \<Longrightarrow> ?H x \<le> ?H cur + 1"
    and aft: "\<And>x. x \<in> set q \<Longrightarrow> before ?H K cur x"
    and srt: "sorted_wrt (before ?H K) q"
    and cl: "\<And>u. u \<in> V \<Longrightarrow> u \<notin> set q \<Longrightarrow> u \<noteq> cur \<Longrightarrow>
           u \<noteq> goal \<and> before ?H K u cur \<and> (\<forall>v. grid_edge w h m u v \<longrightarrow> v \<in> V)"
    and dn: "\<And>d'. d' \<in> set done \<Longrightarrow> \<not> blocked m (wrap_step w h cur d') \<Longrightarrow>
           wrap_step w h cur d' \<in> V"
    and low: "\<And>v. reachable w h m start v \<Longrightarrow> ?H v \<le> ?H cur \<Longrightarrow> v \<in> V"
    and par: "\<And>x u. x \<in> set q \<Longrightarrow> cf x = Some u \<Longrightarrow>
           u \<in> V \<and> u \<notin> set q \<and> (u = cur \<longrightarrow> rank w h cur x < length done)"
    unfolding in_progress_def by blast+
  note t = good_treeD [OF gt]
  have cur_grid: "cur \<in> grid w h" using t(2) cur(1) by blast
  have edge: "grid_edge w h m cur next"
    using cur_grid nxt new(2) by (auto simp add: grid_edge_def)
  have rcur: "reachable w h m start cur" using t(4) cur(1) .
  have rnext: "reachable w h m start next"
    using rcur edge by (rule reachable_step)
  have "?H next \<le> ?H cur + 1"
    using rcur edge by (rule reachable_step)
  moreover have "\<not> ?H next \<le> ?H cur"
    using low [OF rnext] new(1) by blast
  ultimately have hn: "?H next = ?H cur + 1" by simp
  have rk: "rank w h cur next = length done"
  proof (rule rank_prefix [OF dirs])
    show "wrap_step w h cur d = next" using nxt by simp
    show "\<forall>d' \<in> set done. wrap_step w h cur d' \<noteq> next"
      using dn new by metis
  qed
  have Kold: "\<And>v. v \<in> V \<Longrightarrow> ?K v = K v" using new(1) by auto
  have cfold: "\<And>v. v \<in> V \<Longrightarrow> ?cf v = cf v" using new(1) by auto
  have bold: "\<And>u v. u \<in> V \<Longrightarrow> v \<in> V \<Longrightarrow> before ?H ?K u v = before ?H K u v"
    using new(1) by (auto simp add: before_def)
  have notq: "next \<notin> set q" using sub new(1) by blast
  have curq: "cur \<notin> set q" using aft before_irrefl by blast
  have lk: "\<And>v. v \<in> V \<Longrightarrow> length (K v) = ?H v" using t(5) .

  text \<open>The key of the new cell is least among the shortest walks to it.\<close>
  have least: "key_le (K cur @ [length done]) (path_key w h start path)"
    if wp: "walk w h m start path next" and lp: "length path = ?H next" for path
  proof -
    from lp hn have "path \<noteq> []" by auto
    then obtain path' x where e: "path = path' @ [x]" by (cases path rule: rev_cases) auto
    from shortest_walk_last_hop [of w h m start path' x "next"] wp lp e
    obtain u where u: "x = next" "walk w h m start path' u" "grid_edge w h m u next"
        "reachable w h m start u" "?H u = length path'"
      by auto
    have hu: "?H u = ?H cur" using u(5) lp e hn by simp
    then have uV: "u \<in> V" using low [OF u(4)] by simp
    have last: "last (start # path') = u" using u(2) by (simp add: walk_def)
    have key: "path_key w h start path = path_key w h start path' @ [rank w h u next]"
      using e u(1) last by (simp add: path_key_snoc)
    have le': "key_le (K u) (path_key w h start path')"
      using t(6) [OF uV u(2)] u(5) by simp
    have len: "length (K cur) = length (path_key w h start path')"
      using lk [OF cur(1)] hu u(5) by (simp add: length_path_key)
    have "u = cur \<or> u \<in> set q"
      using cl [OF uV] u(3) new(1) by blast
    then show ?thesis
    proof
      assume "u = cur"
      with le' rk show ?thesis
        unfolding key by (intro key_le_snoc len) simp_all
    next
      assume "u \<in> set q"
      from aft [OF this] hu have "key_less (K cur) (K u)"
        by (simp add: before_def)
      with le' have "key_less (K cur) (path_key w h start path')"
        by (auto simp add: key_le_def intro: key_less_trans)
      then show ?thesis
        unfolding key by (simp add: key_le_def key_less_snoc len)
    qed
  qed

  have gt': "good_tree w h m start ?cf ?V ?K"
    unfolding good_tree_def
  proof (intro conjI ballI allI impI)
    show "start \<in> ?V" using t(1) by simp
    show "?V \<subseteq> grid w h" using t(2) nxt dims by (simp add: wrap_step_grid)
    show "?K start = []" using t(1,3) new(1) by auto
  next
    fix v assume "v \<in> ?V"
    then show "reachable w h m start v"
      using rnext t(4) by auto
  next
    fix v assume "v \<in> ?V"
    then show "length (?K v) = ?H v"
      using hn lk cur(1) new(1) by auto
  next
    fix v path assume v: "v \<in> ?V"
      and "walk w h m start path v \<and> length path = ?H v"
    then have p: "walk w h m start path v" "length path = ?H v" by simp_all
    show "key_le (?K v) (path_key w h start path)"
    proof (cases "v = next")
      case True
      with least p show ?thesis by simp
    next
      case False
      with v have vV: "v \<in> V" by simp
      from t(6) [OF vV p] False show ?thesis by simp
    qed
  next
    fix v assume v: "v \<in> ?V" "v \<noteq> start"
    show "\<exists>u \<in> ?V. ?cf v = Some u \<and> grid_edge w h m u v \<and> ?H v = ?H u + 1
        \<and> ?K v = ?K u @ [rank w h u v]"
    proof (cases "v = next")
      case True
      have "?K next = ?K cur @ [rank w h cur next]"
        using rk cur(1) new(1) by auto
      with True edge hn cur(1) show ?thesis by auto
    next
      case False
      with v have vV: "v \<in> V" by simp
      from t(7) [OF vV v(2)] obtain u where u: "u \<in> V" "cf v = Some u" "grid_edge w h m u v"
          "?H v = ?H u + 1" "K v = K u @ [rank w h u v]"
        by blast
      then have "?cf v = Some u" "?K v = ?K u @ [rank w h u v]"
        using vV new(1) by auto
      with u show ?thesis by blast
    qed
  qed

  have "\<exists>later'. directions = (done @ [d]) @ later'" using dirs by auto
  moreover have "cur \<in> ?V" "cur \<noteq> goal" "set (q @ [next]) \<subseteq> ?V"
    using cur sub by auto
  moreover have "\<forall>x \<in> set (q @ [next]). ?H x \<le> ?H cur + 1 \<and> before ?H ?K cur x"
  proof
    fix x assume "x \<in> set (q @ [next])"
    then consider "x \<in> set q" | "x = next" by auto
    then show "?H x \<le> ?H cur + 1 \<and> before ?H ?K cur x"
    proof cases
      case 1
      with sub have "x \<in> V" by blast
      with 1 lvl aft cur(1) show ?thesis by (simp add: bold)
    next
      case 2
      with hn show ?thesis by (simp add: before_def)
    qed
  qed
  moreover have "sorted_wrt (before ?H ?K) (q @ [next])"
  proof -
    have "sorted_wrt (before ?H ?K) q"
    proof (rule sorted_wrt_mono_rel [OF _ srt])
      fix x y assume xy: "x \<in> set q" "y \<in> set q" and b: "before ?H K x y"
      from xy sub have "x \<in> V" "y \<in> V" by blast+
      from bold [OF this] b show "before ?H ?K x y" by simp
    qed
    moreover have "before ?H ?K x next" if xq: "x \<in> set q" for x
    proof (cases "?H x = ?H next")
      case False
      with lvl [OF xq] hn show ?thesis by (simp add: before_def)
    next
      case True
      from xq sub have xV: "x \<in> V" by blast
      from True hn have "x \<noteq> start" using hop_count_start [of w h m start] by auto
      from t(7) [OF xV this] obtain u where u: "u \<in> V" "cf x = Some u"
          "?H x = ?H u + 1" "K x = K u @ [rank w h u x]"
        by blast
      from par [OF xq u(2)] have pu: "u \<notin> set q" "u = cur \<longrightarrow> rank w h cur x < length done"
        by simp_all
      have hu: "?H u = ?H cur" using u(3) True hn by simp
      have lu: "length (K u) = length (K cur)" using lk u(1) cur(1) hu by simp
      have "key_less (K x) (K cur @ [length done])"
      proof (cases "u = cur")
        case True
        with pu u(4) show ?thesis by (simp add: key_less_snoc)
      next
        case False
        from cl [OF u(1) pu(1) False] hu have "key_less (K u) (K cur)"
          by (simp add: before_def)
        with u(4) lu show ?thesis by (simp add: key_less_snoc)
      qed
      with True xV new(1) show ?thesis by (auto simp add: before_def)
    qed
    ultimately show ?thesis by (simp add: sorted_wrt_append)
  qed
  moreover have "\<forall>u \<in> ?V. u \<notin> set (q @ [next]) \<and> u \<noteq> cur \<longrightarrow>
           u \<noteq> goal \<and> before ?H ?K u cur \<and> (\<forall>v. grid_edge w h m u v \<longrightarrow> v \<in> ?V)"
    using cl cur(1) by (auto simp add: bold)
  moreover have "\<forall>d' \<in> set (done @ [d]). \<not> blocked m (wrap_step w h cur d') \<longrightarrow>
      wrap_step w h cur d' \<in> ?V"
    using dn nxt by auto
  moreover have "\<forall>v. reachable w h m start v \<and> ?H v \<le> ?H cur \<longrightarrow> v \<in> ?V"
    using low by auto
  moreover have "\<forall>x \<in> set (q @ [next]). \<forall>u. ?cf x = Some u \<longrightarrow>
      u \<in> ?V \<and> u \<notin> set (q @ [next]) \<and> (u = cur \<longrightarrow> rank w h cur x < length (done @ [d]))"
  proof (intro ballI allI impI)
    fix x u assume x: "x \<in> set (q @ [next])" and c: "?cf x = Some u"
    show "u \<in> ?V \<and> u \<notin> set (q @ [next]) \<and> (u = cur \<longrightarrow> rank w h cur x < length (done @ [d]))"
    proof (cases "x = next")
      case True
      with c have "u = cur" by simp
      with True cur(1) curq new(1) rk show ?thesis by auto
    next
      case False
      with x c have xq: "x \<in> set q" and "cf x = Some u" by auto
      from par [OF this] new(1) show ?thesis by auto
    qed
  qed
  ultimately show ?thesis
    unfolding in_progress_def using gt' by blast
qed


lemma in_progress_expand:
  assumes ip: "in_progress w h m start goal cur done q cf V K"
    and dirs: "directions = done @ d # later"
    and dims: "w < 2 ^ 31" "h < 2 ^ 31"
  shows "\<exists>q' cf' V' K'. expand w h m cur (q, cf, V) d = (q', cf', V')
           \<and> in_progress w h m start goal cur (done @ [d]) q' cf' V' K'"
proof -
  from ip have gt: "good_tree w h m start cf V K" and cur: "cur \<in> V"
    unfolding in_progress_def by blast+
  from good_treeD(2) [OF gt] cur have g: "cur \<in> grid w h" by blast
  then have pos: "0 < w" "0 < h" by (auto simp add: grid_def inside_def)
  have n: "neighbor w h cur d = wrap_step w h cur d"
    using g dims by (rule neighbor_wrap_step)
  show ?thesis
  proof (cases "wrap_step w h cur d \<notin> V \<and> \<not> blocked m (wrap_step w h cur d)")
    case True
    then have "expand w h m cur (q, cf, V) d
        = (q @ [wrap_step w h cur d], cf(wrap_step w h cur d \<mapsto> cur), insert (wrap_step w h cur d) V)"
      by (simp add: expand_def n Let_def)
    moreover have "in_progress w h m start goal cur (done @ [d]) (q @ [wrap_step w h cur d])
        (cf(wrap_step w h cur d \<mapsto> cur)) (insert (wrap_step w h cur d) V)
        (K(wrap_step w h cur d := K cur @ [length done]))"
      using ip dirs refl True pos by (intro in_progress_discover) simp_all
    ultimately show ?thesis by blast
  next
    case False
    then have "expand w h m cur (q, cf, V) d = (q, cf, V)"
      by (auto simp add: expand_def n Let_def)
    moreover have "in_progress w h m start goal cur (done @ [d]) q cf V K"
      using ip dirs False by (intro in_progress_skip) auto
    ultimately show ?thesis by blast
  qed
qed

lemma in_progress_fold:
  assumes "in_progress w h m start goal cur tried q cf V K"
    and "directions = tried @ ds"
    and "w < 2 ^ 31" "h < 2 ^ 31"
  shows "\<exists>q' cf' V' K'. foldl (expand w h m cur) (q, cf, V) ds = (q', cf', V')
           \<and> in_progress w h m start goal cur (tried @ ds) q' cf' V' K'"
  using assms(1,2)
proof (induction ds arbitrary: tried q cf V K)
  case Nil
  then show ?case by auto
next
  case (Cons d ds)
  from in_progress_expand [OF Cons.prems(1,2) assms(3,4)]
  obtain q' cf' V' K' where e: "expand w h m cur (q, cf, V) d = (q', cf', V')"
    and ip: "in_progress w h m start goal cur (tried @ [d]) q' cf' V' K'"
    by blast
  from Cons.prems(2) have "directions = (tried @ [d]) @ ds" by simp
  from Cons.IH [OF ip this] e show ?case by simp
qed

lemma at_head_finish:
  assumes ip: "in_progress w h m start goal cur directions q cf V K"
  shows "at_head w h m start goal q cf V K"
proof -
  let ?H = "hop_count w h m start"
  from ip have gt: "good_tree w h m start cf V K"
    and cur: "cur \<in> V" "cur \<noteq> goal" and sub: "set q \<subseteq> V"
    and lvl: "\<And>x. x \<in> set q \<Longrightarrow> ?H x \<le> ?H cur + 1"
    and aft: "\<And>x. x \<in> set q \<Longrightarrow> before ?H K cur x"
    and srt: "sorted_wrt (before ?H K) q"
    and cl: "\<And>u. u \<in> V \<Longrightarrow> u \<notin> set q \<Longrightarrow> u \<noteq> cur \<Longrightarrow>
           u \<noteq> goal \<and> before ?H K u cur \<and> (\<forall>v. grid_edge w h m u v \<longrightarrow> v \<in> V)"
    and dn: "\<And>d'. d' \<in> set directions \<Longrightarrow> \<not> blocked m (wrap_step w h cur d') \<Longrightarrow>
           wrap_step w h cur d' \<in> V"
    and low: "\<And>v. reachable w h m start v \<Longrightarrow> ?H v \<le> ?H cur \<Longrightarrow> v \<in> V"
    and par: "\<And>x u. x \<in> set q \<Longrightarrow> cf x = Some u \<Longrightarrow> u \<in> V \<and> u \<notin> set q"
    unfolding in_progress_def by blast+
  have cur_edges: "v \<in> V" if "grid_edge w h m cur v" for v
    using that dn by (auto simp add: grid_edge_def set_directions)
  have closed: "u \<noteq> goal \<and> (\<forall>x \<in> set q. before ?H K u x)
      \<and> (\<forall>v. grid_edge w h m u v \<longrightarrow> v \<in> V)" if u: "u \<in> V" "u \<notin> set q" for u
  proof (cases "u = cur")
    case True
    with cur(2) aft cur_edges show ?thesis by blast
  next
    case False
    from cl [OF u False] aft show ?thesis by (blast intro: before_trans)
  qed
  have lvl': "\<forall>x \<in> set q. ?H x \<le> ?H (hd q) + 1"
  proof
    fix x assume x: "x \<in> set q"
    then have "hd q \<in> set q" by (cases q) auto
    from before_le [OF aft [OF this]] lvl [OF x] show "?H x \<le> ?H (hd q) + 1" by simp
  qed
  have low': "v \<in> V" if ne: "q \<noteq> []" and r: "reachable w h m start v"
    and le: "?H v \<le> ?H (hd q)" for v
  proof (cases "?H v \<le> ?H cur")
    case True
    with r show ?thesis by (rule low)
  next
    case False
    from ne have hq: "hd q \<in> set q" by (cases q) auto
    with lvl [OF hq] le False have hv: "?H v = ?H cur + 1" "?H (hd q) = ?H cur + 1" by simp_all
    then have "v \<noteq> start" using hop_count_start [of w h m start] by auto
    from hop_count_pred [OF r this] obtain u where u: "reachable w h m start u"
        "grid_edge w h m u v" "?H v = ?H u + 1"
      by blast
    with hv have hu: "?H u = ?H cur" by simp
    with u(1) have uV: "u \<in> V" using low by simp
    have "u \<notin> set q"
    proof
      assume uq: "u \<in> set q"
      have "?H (hd q) \<le> ?H u"
      proof (cases q)
        case Nil
        with ne show ?thesis by simp
      next
        case (Cons a q')
        with uq srt show ?thesis by (auto dest: before_le)
      qed
      with hv(2) hu show False by simp
    qed
    with closed [OF uV] u(2) show ?thesis by blast
  qed
  show ?thesis
    unfolding at_head_def using gt sub lvl' srt closed low' par by blast
qed

lemma closed_walk:
  assumes "\<forall>u \<in> V. \<forall>v. grid_edge w h m u v \<longrightarrow> v \<in> V"
  shows "is_path w h m u path \<Longrightarrow> u \<in> V \<Longrightarrow> last (u # path) \<in> V"
proof (induction path arbitrary: u)
  case Nil
  then show ?case by simp
next
  case (Cons v path)
  from Cons.prems assms have "v \<in> V" by auto
  with Cons.IH [of v] Cons.prems show ?case by simp
qed

lemma bfs_loop_correct:
  assumes "at_head w h m start goal q cf V K" and "st = (q, cf, V)"
    and "w < 2 ^ 31" "h < 2 ^ 31"
  shows "\<exists>found cf'. bfs_loop w h m goal st = Some (found, cf')
           \<and> (found \<longleftrightarrow> reachable w h m start goal)
           \<and> (found \<longrightarrow> (\<exists>V' K'. good_tree w h m start cf' V' K' \<and> goal \<in> V'))"
  using assms
proof (induction w h m goal st arbitrary: q cf V K rule: bfs_loop.induct)
  case (1 w h m goal frontier came_from visited)
  from "1.prems"(2) have eq: "frontier = q" "came_from = cf" "visited = V" by simp_all
  note ah = "1.prems"(1)
  from ah have gt: "good_tree w h m start cf V K" by (simp add: at_head_def)
  note t = good_treeD [OF gt]
  show ?case
  proof (cases q)
    case Nil
    with ah have "\<forall>u \<in> V. u \<noteq> goal \<and> (\<forall>v. grid_edge w h m u v \<longrightarrow> v \<in> V)"
      by (simp add: at_head_def)
    then have ng: "goal \<notin> V" and cl: "\<forall>u \<in> V. \<forall>v. grid_edge w h m u v \<longrightarrow> v \<in> V"
      by blast+
    have "\<not> reachable w h m start goal"
    proof
      assume "reachable w h m start goal"
      then obtain path where "is_path w h m start path" "last (start # path) = goal"
        by (auto simp add: reachable_def walk_def)
      with closed_walk [OF cl this(1) t(1)] ng show False by simp
    qed
    with Nil show ?thesis by (auto simp add: eq)
  next
    case (Cons cur rest)
    from ah Cons have curV: "cur \<in> V" by (simp add: at_head_def)
    show ?thesis
    proof (cases "cur = goal")
      case True
      with curV t(4) have "reachable w h m start goal" by blast
      moreover have "\<exists>V' K'. good_tree w h m start cf V' K' \<and> goal \<in> V'"
        using gt curV True by blast
      ultimately show ?thesis using Cons True by (auto simp add: eq)
    next
      case False
      from t(2) curV have "cur \<in> grid w h" by blast
      then have pos: "0 < w" "0 < h" by (auto simp add: grid_def inside_def)
      from ah have "in_progress w h m start goal cur [] rest cf V K"
        unfolding Cons using False by (rule in_progress_begin)
      from in_progress_fold [OF this _ "1.prems"(3,4), of directions]
      obtain q' cf' V' K' where
        f: "foldl (expand w h m cur) (rest, cf, V) directions = (q', cf', V')"
        and ip: "in_progress w h m start goal cur directions q' cf' V' K'"
        by auto
      from ip have ah': "at_head w h m start goal q' cf' V' K'" by (rule at_head_finish)
      have "\<exists>found cf''. bfs_loop w h m goal (foldl (expand w h m cur) (rest, cf, V) directions)
              = Some (found, cf'')
           \<and> (found \<longleftrightarrow> reachable w h m start goal)
           \<and> (found \<longrightarrow> (\<exists>V' K'. good_tree w h m start cf'' V' K' \<and> goal \<in> V'))"
      proof (rule "1.IH" [unfolded eq, OF Cons False _ ah' f "1.prems"(3,4)])
        show "\<not> (w = 0 \<or> h = 0)" using pos by simp
      qed
      then show ?thesis using Cons False pos by (simp add: eq)
    qed
  qed
qed


subsection \<open>Reading the path off the tree\<close>

lemma reconstruct_loop_tree:
  assumes gt: "good_tree w h m start cf V K"
  shows "v \<in> V \<Longrightarrow> hop_count w h m start v = n \<Longrightarrow>
    \<exists>path. reconstruct_loop start cf v acc = Some (acc @ rev path)
      \<and> walk w h m start path v \<and> length path = n \<and> path_key w h start path = K v"
proof (induction n arbitrary: v acc)
  case 0
  note t = good_treeD [OF gt]
  from t(4) [OF "0.prems"(1)] "0.prems"(2) have "v = start" by (rule hop_count_zero)
  then have "reconstruct_loop start cf v acc = Some (acc @ rev [])"
    by (simp add: reconstruct_loop.simps)
  moreover have "walk w h m start [] v" using \<open>v = start\<close> by (simp add: walk_Nil)
  moreover have "path_key w h start [] = K v" using \<open>v = start\<close> t(3) by simp
  ultimately show ?case by blast
next
  case (Suc n)
  note t = good_treeD [OF gt]
  from Suc.prems(2) have ne: "v \<noteq> start" using hop_count_start [of w h m start] by auto
  from t(7) [OF Suc.prems(1) ne] obtain u where u: "u \<in> V" "cf v = Some u"
      "grid_edge w h m u v" "hop_count w h m start v = hop_count w h m start u + 1"
      "K v = K u @ [rank w h u v]"
    by blast
  from u(4) Suc.prems(2) have "hop_count w h m start u = n" by simp
  from Suc.IH [OF u(1) this, of "acc @ [v]"] obtain path where
    p: "reconstruct_loop start cf u (acc @ [v]) = Some ((acc @ [v]) @ rev path)"
      "walk w h m start path u" "length path = n" "path_key w h start path = K u"
    by blast
  have "reconstruct_loop start cf v acc = reconstruct_loop start cf u (acc @ [v])"
    using ne u(2) by (subst reconstruct_loop.simps) simp
  with p(1) have "reconstruct_loop start cf v acc = Some (acc @ rev (path @ [v]))" by simp
  moreover have "walk w h m start (path @ [v]) v"
    using p(2) u(3) by (auto simp add: walk_snoc)
  moreover have "length (path @ [v]) = Suc n" using p(3) by simp
  moreover have "path_key w h start (path @ [v]) = K v"
    using p(2,4) u(5) by (simp add: path_key_snoc walk_def)
  ultimately show ?case by blast
qed

lemma findShortestPathBFS_tree:
  assumes "start \<in> grid w h" and "w < 2 ^ 31" and "h < 2 ^ 31"
  shows "if reachable w h m start goal
         then \<exists>path. findShortestPathBFS w h m start goal = Some path
                \<and> walk w h m start path goal
                \<and> length path = hop_count w h m start goal
                \<and> (\<forall>path'. walk w h m start path' goal \<and> length path' = length path
                      \<longrightarrow> key_le (path_key w h start path) (path_key w h start path'))
         else findShortestPathBFS w h m start goal = Some []"
proof -
  from assms(1) have "at_head w h m start goal [start] Map.empty {start} (\<lambda>v. [])"
    by (rule at_head_init)
  from bfs_loop_correct [OF this refl assms(2,3)] obtain found cf where
    b: "bfs_loop w h m goal ([start], Map.empty, {start}) = Some (found, cf)"
      "found \<longleftrightarrow> reachable w h m start goal"
      "found \<longrightarrow> (\<exists>V K. good_tree w h m start cf V K \<and> goal \<in> V)"
    by blast
  show ?thesis
  proof (cases "reachable w h m start goal")
    case False
    with b show ?thesis by (simp add: findShortestPathBFS_def)
  next
    case True
    with b obtain V K where gt: "good_tree w h m start cf V K" and g: "goal \<in> V" by blast
    note t = good_treeD [OF gt]
    from reconstruct_loop_tree [OF gt g refl, of "[]"] obtain path where
      p: "reconstruct_loop start cf goal [] = Some (rev path)"
        "walk w h m start path goal" "length path = hop_count w h m start goal"
        "path_key w h start path = K goal"
      by auto
    have "\<not> (cf goal = None \<and> start \<noteq> goal)"
      using t(7) [OF g] by auto
    then have "reconstructPath start goal cf = map_option rev (reconstruct_loop start cf goal [])"
      unfolding reconstructPath_def by (rule if_not_P)
    then have "reconstructPath start goal cf = Some path"
      using p(1) by simp
    with b True have "findShortestPathBFS w h m start goal = Some path"
      by (simp add: findShortestPathBFS_def)
    moreover have "\<forall>path'. walk w h m start path' goal \<and> length path' = length path
        \<longrightarrow> key_le (path_key w h start path) (path_key w h start path')"
      using t(6) [OF g] p(3,4) by simp
    ultimately show ?thesis using True p(2,3) by simp
  qed
qed


text \<open>
  C7 (amended). On a board of \<open>w\<close> by \<open>h\<close> cells (both below \<open>2^31\<close>) with a start cell on
  the board, \<^verbatim>\<open>findShortestPathBFS\<close> returns. The path returned is non-empty if and only
  if the goal is reachable from the start over the 8-connected wraparound grid without
  obstacle and trap cells and differs from the start; when the goal is the start, the
  path is empty. When the goal is reachable, the path is a walk from the start to the
  goal, its length is the minimum hop count, and among all the walks of that length it
  is the first one in the lexicographic order of the places that the hops' directions
  have in the list UP, DOWN, LEFT, RIGHT, UP_LEFT, UP_RIGHT, DOWN_LEFT, DOWN_RIGHT.
\<close>

theorem findShortestPathBFS_shortest:
  assumes "start \<in> grid w h" and "w < 2 ^ 31" and "h < 2 ^ 31"
    and "matrix_dims m (int w) (int h)"
  shows "\<exists>path. findShortestPathBFS w h m start goal = Some path
           \<and> (path \<noteq> [] \<longleftrightarrow> reachable w h m start goal \<and> goal \<noteq> start)
           \<and> (reachable w h m start goal \<longrightarrow>
                walk w h m start path goal
                \<and> length path = hop_count w h m start goal
                \<and> (\<forall>path'. walk w h m start path' goal \<and> length path' = length path
                      \<longrightarrow> key_le (path_key w h start path) (path_key w h start path')))"
proof (cases "reachable w h m start goal")
  case False
  with findShortestPathBFS_tree [OF assms(1-3), of m goal] show ?thesis by simp
next
  case True
  with findShortestPathBFS_tree [OF assms(1-3), of m goal] obtain path where
    p: "findShortestPathBFS w h m start goal = Some path" "walk w h m start path goal"
      "length path = hop_count w h m start goal"
      "\<forall>path'. walk w h m start path' goal \<and> length path' = length path
         \<longrightarrow> key_le (path_key w h start path) (path_key w h start path')"
    by auto
  have "path \<noteq> [] \<longleftrightarrow> goal \<noteq> start"
  proof
    assume "path \<noteq> []"
    then have "length path \<noteq> 0" by simp
    with p(3) have "hop_count w h m start goal \<noteq> 0" by simp
    then show "goal \<noteq> start" using hop_count_start [of w h m start] by auto
  next
    assume "goal \<noteq> start"
    with hop_count_zero [OF True] have "hop_count w h m start goal \<noteq> 0" by blast
    with p(3) have "length path \<noteq> 0" by simp
    then show "path \<noteq> []" by simp
  qed
  with p True show ?thesis by blast
qed

theorem findShortestPathBFS_shortest_witness:
  "findShortestPathBFS 5 5 open_board (Position 0 0) (Position 0 4) = Some [Position 0 4]
   \<and> walk 5 5 open_board (Position 0 0) [Position 0 4] (Position 0 4)
   \<and> hop_count 5 5 open_board (Position 0 0) (Position 0 4) = 1"
proof -
  have e: "findShortestPathBFS 5 5 open_board (Position 0 0) (Position 0 4) = Some [Position 0 4]"
    by (simp add: findShortestPathBFS_def directions_def expand_def neighbor_def
        wrap_coord_def pos_add_def blocked_def isBlocked_def cell_def open_board_def
        reconstructPath_def reconstruct_loop.simps Let_def)
  have g: "Position 0 0 \<in> grid 5 5" by (simp add: grid_def inside_def)
  have d: "matrix_dims open_board (int 5) (int 5)"
    by (simp add: matrix_dims_def open_board_def)
  have "(5::nat) < 2 ^ 31" by simp
  from findShortestPathBFS_shortest [OF g this this d, of "Position 0 4"] e
  show ?thesis by auto
qed

text \<open>
  The claim as stated fails when the goal is the start cell: the goal is reachable (in
  no hop), and the path returned is empty.
\<close>

theorem findShortestPathBFS_start_is_goal_counterexample:
  "reachable 5 5 open_board (Position 0 0) (Position 0 0)
   \<and> findShortestPathBFS 5 5 open_board (Position 0 0) (Position 0 0) = Some []"
  by (simp add: reachable_start findShortestPathBFS_def reconstructPath_def
      reconstruct_loop.simps)


subsection \<open>The tracked cooldown\<close>

lemma getAction_info_request:
  "shouldAskForBattleInfo alg \<Longrightarrow>
     getAction combat alg
       = (GetBattleInfo, (decrement_tracked_cooldown alg)\<lparr>shouldAskForBattleInfo := False\<rparr>)"
  by (simp add: getAction_def decrement_tracked_cooldown_def Let_def)

text \<open>
  C8 (amended). Every invocation of \<^verbatim>\<open>getAction\<close> decrements the tracked cooldown when it
  is above zero, the info-request invocations included: an info-request invocation
  returns \<^verbatim>\<open>GetBattleInfo\<close> with the cooldown one lower (or unchanged at zero or below);
  another invocation runs the combat part on the state with the cooldown one lower.
\<close>

theorem getAction_decrements_cooldown:
  "(shouldAskForBattleInfo alg \<longrightarrow>
      fst (getAction combat alg) = GetBattleInfo
      \<and> cooldown_remaining (snd (getAction combat alg))
          = (if cooldown_remaining alg > 0 then cooldown_remaining alg - 1
             else cooldown_remaining alg)
      \<and> \<not> shouldAskForBattleInfo (snd (getAction combat alg)))
   \<and> (\<not> shouldAskForBattleInfo alg \<longrightarrow>
      getAction combat alg
        = combat (alg\<lparr>cooldown_remaining :=
                         (if cooldown_remaining alg > 0 then cooldown_remaining alg - 1
                          else cooldown_remaining alg),
                       shouldAskForBattleInfo := True\<rparr>))"
  by (simp add: getAction_def decrement_tracked_cooldown_def Let_def)

theorem getAction_decrements_cooldown_witness:
  "fst (getAction (Pair Shoot) after_shot) = GetBattleInfo
   \<and> cooldown_remaining (snd (getAction (Pair Shoot) after_shot)) = 3
   \<and> getAction (Pair Shoot) (snd (getAction (Pair Shoot) after_shot))
       = (Shoot, after_shot\<lparr>cooldown_remaining := 2\<rparr>)"
  using getAction_decrements_cooldown [of after_shot "Pair Shoot"]
    getAction_decrements_cooldown [of "snd (getAction (Pair Shoot) after_shot)" "Pair Shoot"]
  by (simp add: after_shot_def new_ChasingAlgorithm_def getAction_info_request
      decrement_tracked_cooldown_def)

text \<open>
  The claim as stated fails on an info-request invocation: with a tracked cooldown of 4
  (the state after a shot), the invocation returns \<^verbatim>\<open>GetBattleInfo\<close> and the cooldown is 3.
\<close>

theorem getAction_info_tick_counterexample:
  "shouldAskForBattleInfo after_shot \<and> cooldown_remaining after_shot = 4
   \<and> fst (getAction (Pair DoNothing) after_shot) = GetBattleInfo
   \<and> cooldown_remaining (snd (getAction (Pair DoNothing) after_shot)) = 3"
  by (simp add: after_shot_def new_ChasingAlgorithm_def getAction_def
      decrement_tracked_cooldown_def Let_def)

end
